theory Spec2Isabelle
  imports Main "HOL-Library.Word" "HOL-Library.Multiset"
begin

unbundle bit_operations_syntax

section \<open>Bit kernel (bit\_utilities.c)\<close>

text \<open>
  A sequence is a \<^verbatim>\<open>uint64_t\<close> whose low 52 bits are the cyclic binary word.
  Shifts are \<^const>\<open>push_bit\<close> and \<^const>\<open>drop_bit\<close> on 64-bit words.
\<close>

type_synonym u64 = "64 word"
type_synonym u32 = "32 word"

text \<open>
  The loop of \<^verbatim>\<open>bit_has_unique_subsequences\<close>:
  \<^verbatim>\<open>for (i = 0; is_valid && (i < SEQUENCE_LENGTH); ++i)\<close>, with the loop variables
  passed as arguments. \<^verbatim>\<open>1LL << subsequence_index\<close> is a shift by at most 63.
\<close>

function unique_loop :: "nat \<Rightarrow> u64 \<Rightarrow> u64 \<Rightarrow> bool \<Rightarrow> bool" where
  "unique_loop i seq subsequence_bit_store is_valid =
     (if is_valid \<and> i < 52 then
        (let subsequence_index = unat (seq AND 63);
             subseq_bit = push_bit subsequence_index (1 :: u64)
         in unique_loop (i + 1) (drop_bit 1 seq)
              (subsequence_bit_store OR subseq_bit)
              (subsequence_bit_store AND subseq_bit = 0))
      else is_valid)"
  by pat_completeness auto
termination
  by (relation "measure (\<lambda>(i, seq, store, v). 52 - i)") auto

declare unique_loop.simps [simp del]

definition bit_has_unique_subsequences :: "u64 \<Rightarrow> bool" where
  "bit_has_unique_subsequences sequence =
     unique_loop 0 (sequence OR push_bit 52 (sequence AND 31)) 0 True"

text \<open>
  The specification's notion, written independently of the code: window \<open>i\<close> of a
  52-bit sequence is the list of the six bits at positions \<open>i, i+1, \<dots>, i+5\<close>, taken
  modulo 52; the sequence is valid when the 52 windows are pairwise distinct.
\<close>

definition cyclic_window :: "u64 \<Rightarrow> nat \<Rightarrow> bool list" where
  "cyclic_window s i = map (\<lambda>j. bit s ((i + j) mod 52)) [0..<6]"

definition windows_distinct :: "u64 \<Rightarrow> bool" where
  "windows_distinct s = distinct (map (cyclic_window s) [0..<52])"

text \<open>The code of the window at offset \<open>k\<close> of the extended word, as the loop reads it.\<close>

definition code_at :: "u64 \<Rightarrow> nat \<Rightarrow> nat" where
  "code_at seq k = unat (drop_bit k seq AND 63)"

subsection \<open>The validator decides distinctness of the cyclic windows\<close>

lemma unat_and_63: "unat ((w::u64) AND 63) < 64"
proof -
  have "unat (w AND 63) \<le> unat (63 :: u64)"
    by (rule word_and_le1 [THEN word_le_nat_alt [THEN iffD1]])
  then show ?thesis by simp
qed

lemma code_at_lt: "code_at seq k < 64"
  by (simp add: code_at_def unat_and_63)

lemma unique_loop_False: "unique_loop i seq store False = False"
  by (simp add: unique_loop.simps)

lemma unique_loop_char:
  "i \<le> 52 \<Longrightarrow> unique_loop i seq store True =
     (distinct (map (code_at seq) [0..<52 - i]) \<and> (\<forall>k < 52 - i. \<not> bit store (code_at seq k)))"
proof (induction "52 - i" arbitrary: i seq store)
  case 0
  then show ?case by (simp add: unique_loop.simps)
next
  case (Suc n)
  then have i: "i < 52" and n: "n = 52 - (i + 1)" and le: "i + 1 \<le> 52" by auto
  have shift: "code_at (drop_bit 1 seq) = (\<lambda>k. code_at seq (Suc k))"
    by (rule ext) (simp add: code_at_def)
  have c0: "unat (seq AND 63) = code_at seq 0" by (simp add: code_at_def)
  have upt: "[0..<52 - i] = 0 # map Suc [0..<n]"
    using Suc(2) by (metis map_Suc_upt upt_conv_Cons zero_less_Suc)
  show ?case
  proof (cases "bit store (code_at seq 0)")
    case True
    then have "unique_loop i seq store True = False"
      using i by (subst unique_loop.simps)
        (simp add: Let_def c0 and_exp_eq_0_iff_not_bit unique_loop_False)
    moreover have "\<not> (\<forall>k < 52 - i. \<not> bit store (code_at seq k))"
      using True i by (intro notI) (drule spec[of _ 0], simp)
    ultimately show ?thesis by simp
  next
    case False
    have "unique_loop i seq store True =
          unique_loop (i + 1) (drop_bit 1 seq) (store OR push_bit (code_at seq 0) 1) True"
      using i False by (subst unique_loop.simps)
        (simp add: Let_def c0 and_exp_eq_0_iff_not_bit unique_loop_False)
    also have "\<dots> = (distinct (map (code_at (drop_bit 1 seq)) [0..<n]) \<and>
        (\<forall>k < n. \<not> bit (store OR push_bit (code_at seq 0) 1) (code_at (drop_bit 1 seq) k)))"
      using Suc(1)[OF n le] n by simp
    also have "\<dots> = (distinct (map (\<lambda>k. code_at seq (Suc k)) [0..<n]) \<and>
        (\<forall>k < n. \<not> bit (store OR push_bit (code_at seq 0) 1) (code_at seq (Suc k))))"
      unfolding shift ..
    also have "\<dots> = (distinct (map (code_at seq) [0..<52 - i]) \<and>
        (\<forall>k < 52 - i. \<not> bit store (code_at seq k)))"
    proof -
      have A: "(\<forall>k < 52 - i. P k) = (P 0 \<and> (\<forall>k < n. P (Suc k)))" for P
        using Suc(2) by (metis (no_types) All_less_Suc2)
      have B: "(code_at seq 0 \<in> set (map (\<lambda>k. code_at seq (Suc k)) [0..<n])) =
               (\<exists>k < n. code_at seq (Suc k) = code_at seq 0)"
        by (simp add: image_iff Bex_def) metis
      have C: "bit (store OR push_bit (code_at seq 0) 1) m = (bit store m \<or> m = code_at seq 0)" for m
        using code_at_lt[of seq 0] by (auto simp add: bit_simps)
      have D: "map (code_at seq) (0 # map Suc [0..<n]) =
               code_at seq 0 # map (\<lambda>k. code_at seq (Suc k)) [0..<n]"
        by (simp add: comp_def)
      show ?thesis
        unfolding upt A C D distinct.simps B using False by blast
    qed
    finally show ?thesis .
  qed
qed

lemma high_bits_clear:
  fixes s :: u64
  assumes "s < 2 ^ 52" and "52 \<le> n"
  shows "\<not> bit s n"
proof -
  have "s AND mask 52 = s" using assms(1) by (rule less_mask_eq)
  then have "bit s n = bit (s AND mask 52) n" by simp
  also have "\<dots> = False" using assms(2) by (simp only: bit_and_iff bit_mask_iff) simp
  finally show ?thesis by simp
qed

lemma bit_63: "bit (63::u64) j = (j < 6)"
proof -
  have "bit (mask 6 :: u64) j = (j < 6)"
    by (simp only: bit_mask_iff possible_bit_word) auto
  moreover have "(mask 6 :: u64) = 63" by (simp add: mask_eq_exp_minus_1)
  ultimately show ?thesis by simp
qed

lemma bit_31: "bit (31::u64) j = (j < 5)"
proof -
  have "bit (mask 5 :: u64) j = (j < 5)"
    by (simp only: bit_mask_iff possible_bit_word) auto
  moreover have "(mask 5 :: u64) = 31" by (simp add: mask_eq_exp_minus_1)
  ultimately show ?thesis by simp
qed

lemma code_at_wrap:
  fixes s :: u64
  assumes s: "s < 2 ^ 52" and i: "i < 52"
  shows "bit (drop_bit i (s OR push_bit 52 (s AND 31)) AND (63::u64)) j =
         (j < 6 \<and> bit s ((i + j) mod 52))"
proof -
  have L: "bit (drop_bit i (s OR push_bit 52 (s AND 31)) AND (63::u64)) j =
        ((bit s (i + j) \<or> (52 \<le> i + j \<and> i + j < 64 \<and> bit s (i + j - 52) \<and> i + j - 52 < 5))
          \<and> j < 6)"
    by (simp only: bit_and_iff bit_or_iff bit_drop_bit_eq o_apply bit_push_bit_iff
          bit_63 bit_31 possible_bit_word)
       auto
  show ?thesis
  proof (cases "i + j < 52")
    case True
    then show ?thesis unfolding L by auto
  next
    case False
    then have e: "j < 6 \<Longrightarrow> (i + j) mod 52 = i + j - 52" using i by (simp add: mod_if)
    have "j < 6 \<Longrightarrow> i + j - 52 < 5 \<and> i + j < 64" using i by simp
    then show ?thesis unfolding L using False high_bits_clear[OF s, of "i + j"] e
      by auto
  qed
qed

lemma word_eq_bits: "(a = b) = (\<forall>j. bit a j = bit b j)" for a b :: u64
  by (auto intro: bit_eqI)

lemma code_at_eq_iff:
  fixes s :: u64
  assumes s: "s < 2 ^ 52" and i: "i < 52" and k: "k < 52"
  shows "(code_at (s OR push_bit 52 (s AND 31)) i = code_at (s OR push_bit 52 (s AND 31)) k)
         = (cyclic_window s i = cyclic_window s k)"
proof -
  let ?q = "s OR push_bit 52 (s AND 31)"
  have "(code_at ?q i = code_at ?q k) = (drop_bit i ?q AND 63 = drop_bit k ?q AND 63)"
    by (simp add: code_at_def word_unat_eq_iff)
  also have "\<dots> = (\<forall>j. bit (drop_bit i ?q AND 63) j = bit (drop_bit k ?q AND 63) j)"
    by (rule word_eq_bits)
  also have "\<dots> = (\<forall>j < 6. bit s ((i + j) mod 52) = bit s ((k + j) mod 52))"
    unfolding code_at_wrap[OF s i] code_at_wrap[OF s k] by auto
  also have "\<dots> = (cyclic_window s i = cyclic_window s k)"
    by (auto simp add: cyclic_window_def)
  finally show ?thesis .
qed

lemma unique_codes:
  "bit_has_unique_subsequences s =
     distinct (map (code_at (s OR push_bit 52 (s AND 31))) [0..<52])"
  unfolding bit_has_unique_subsequences_def by (subst unique_loop_char) simp_all

lemma unique_iff_windows:
  fixes s :: u64
  assumes s: "s < 2 ^ 52"
  shows "bit_has_unique_subsequences s = windows_distinct s"
proof -
  let ?q = "s OR push_bit 52 (s AND 31)"
  have "bit_has_unique_subsequences s = distinct (map (code_at ?q) [0..<52])"
    by (rule unique_codes)
  also have "\<dots> = inj_on (code_at ?q) {0..<52}"
    by (simp add: distinct_map)
  also have "\<dots> = inj_on (cyclic_window s) {0..<52}"
    unfolding inj_on_def using code_at_eq_iff[OF s] by auto
  also have "\<dots> = windows_distinct s"
    by (simp add: windows_distinct_def distinct_map)
  finally show ?thesis .
qed

text \<open>
  Claim C1. For every 52-bit sequence \<open>s\<close> (a 64-bit word below \<open>2^52\<close>),
  \<^verbatim>\<open>bit_has_unique_subsequences(s)\<close> returns true if and only if the 52 cyclically
  consecutive length-6 windows of \<open>s\<close>, window \<open>i\<close> starting at bit position \<open>i\<close>, are
  pairwise distinct.
\<close>

theorem bit_has_unique_subsequences_correct:
  fixes s :: u64
  assumes "s < 2 ^ 52"
  shows "bit_has_unique_subsequences s = distinct (map (cyclic_window s) [0..<52])"
  using unique_iff_windows[OF assms] by (simp add: windows_distinct_def)

theorem bit_has_unique_subsequences_correct_witness:
  "(0x62ec9e94235be :: u64) < 2 ^ 52
   \<and> bit_has_unique_subsequences 0x62ec9e94235be
   \<and> distinct (map (cyclic_window 0x62ec9e94235be) [0..<52])"
proof -
  have lt: "(0x62ec9e94235be :: u64) < 2 ^ 52" by simp
  have v: "bit_has_unique_subsequences 0x62ec9e94235be"
    by (simp add: bit_has_unique_subsequences_def unique_loop.simps)
  from bit_has_unique_subsequences_correct[OF lt] v
  have "distinct (map (cyclic_window 0x62ec9e94235be) [0..<52])" by simp
  with lt v show ?thesis by simp
qed

section \<open>Deck utilities and the deck realizer (deck\_utilities.c, umake\_decks.c)\<close>

subsection \<open>Counting set bits\<close>

text \<open>
  \<^verbatim>\<open>bit_count_set_bits\<close> clears the lowest set bit until the value is zero. The
  loop terminates because each round makes the value smaller.
\<close>

lemma clear_lowest_less: "v \<noteq> 0 \<Longrightarrow> unat (v AND (v - 1)) < unat (v :: u32)"
proof -
  assume nz: "v \<noteq> 0"
  have "v AND (v - 1) \<le> v - 1" by (rule word_and_le1)
  moreover have "v - 1 < v" using nz by (simp add: word_less_nat_alt unat_minus_one unat_gt_0)
  ultimately show ?thesis by (simp add: word_less_nat_alt word_le_nat_alt)
qed

function count_loop :: "u32 \<Rightarrow> int \<Rightarrow> int" where
  "count_loop v cnt = (if v \<noteq> 0 then count_loop (v AND (v - 1)) (cnt + 1) else cnt)"
  by pat_completeness auto
termination
  by (relation "measure (\<lambda>(v, c). unat v)") (auto simp add: clear_lowest_less)

declare count_loop.simps [simp del]

definition bit_count_set_bits :: "u32 \<Rightarrow> int" where
  "bit_count_set_bits v = count_loop v 0"

subsection \<open>Data\<close>

text \<open>
  \<^verbatim>\<open>deck_info_t\<close> and \<^verbatim>\<open>seq_info_t\<close>. A card is the C \<^verbatim>\<open>int\<close>
  \<^verbatim>\<open>(suit << 8) | value\<close>; all integers of the realizer stay far below
  \<open>2^31\<close>, so they are modelled as unbounded integers. The two deck arrays have 64
  entries, of which the first \<^verbatim>\<open>deck_length\<close> = 52 are used.
\<close>

record deck_info =
  deck_array :: "int list"
  temp_deck_array :: "int list"
  deck_length :: nat
  deck_score :: int
  sequence_count :: int
  sequence_type_bits :: u32
  find_all_sequences_flag :: bool

record seq_info =
  red_seq :: u64
  cd_seq :: u64
  hc_seq :: u64
  odd_seq :: u64
  c7k_seq :: u64
  c8k_seq :: u64
  c4t_seq :: u64
  subsequence_mask :: u64
  n_bits_max :: nat

definition SUIT_SPADE :: int where "SUIT_SPADE = 0"
definition SUIT_CLUB :: int where "SUIT_CLUB = 1"
definition SUIT_HEART :: int where "SUIT_HEART = 2"
definition SUIT_DIAMOND :: int where "SUIT_DIAMOND = 3"

definition VALUE_ACE_OR_THREE :: int where "VALUE_ACE_OR_THREE = 103"
definition VALUE_FOUR_OR_SIX :: int where "VALUE_FOUR_OR_SIX = 46"
definition VALUE_EIGHT_OR_TEN :: int where "VALUE_EIGHT_OR_TEN = 81"
definition VALUE_JACK_OR_KING :: int where "VALUE_JACK_OR_KING = 113"
definition TINY_DECK_SCORE :: int where "TINY_DECK_SCORE = 0"

text \<open>
  \<^verbatim>\<open>deck_is_value_in_array(value, array_ptr, array_length)\<close>; the caller passes the
  first \<^verbatim>\<open>array_length\<close> entries.
\<close>

fun deck_is_value_in_array :: "int \<Rightarrow> int list \<Rightarrow> bool" where
  "deck_is_value_in_array v [] = False"
| "deck_is_value_in_array v (x # xs) = (if v = x then True else deck_is_value_in_array v xs)"

definition deck_get_sequence_from_deck :: "int list \<Rightarrow> deck_info \<Rightarrow> u64" where
  "deck_get_sequence_from_deck value_array di =
     foldl (\<lambda>sequence card.
              (let s = push_bit 1 sequence; card_value = card AND 0xFF
               in if deck_is_value_in_array card_value value_array then s OR 1 else s))
       0 (take (deck_length di) (temp_deck_array di))"

definition value_lookup_array :: "int list" where
  "value_lookup_array =
     [2, VALUE_FOUR_OR_SIX, 0, 0, 0, 0, 12, VALUE_EIGHT_OR_TEN,
      VALUE_ACE_OR_THREE, 5, 0, 0, 0, 7, VALUE_JACK_OR_KING, 9]"

text \<open>
  \<^verbatim>\<open>get_deck_possibilities\<close>: the loop runs \<^verbatim>\<open>i\<close> from
  \<^verbatim>\<open>n_bits_max - 1\<close> down to 0, reading the lowest bit of each sequence and shifting.
  A value code whose table entry is 0 stands for no card.
\<close>

fun possibilities_loop ::
  "nat \<Rightarrow> u64 \<Rightarrow> u64 \<Rightarrow> u64 \<Rightarrow> u64 \<Rightarrow> u64 \<Rightarrow> u64 \<Rightarrow> int list \<Rightarrow> int list" where
  "possibilities_loop 0 red cd odds c7k c8k c4t deck = deck"
| "possibilities_loop (Suc i) red cd odds c7k c8k c4t deck =
     (let suit = uint (push_bit 1 (red AND 1) OR (cd AND 1));
          value_code = unat (push_bit 3 (odds AND 1) OR push_bit 2 (c7k AND 1)
                             OR push_bit 1 (c8k AND 1) OR (c4t AND 1));
          v = value_lookup_array ! value_code
      in possibilities_loop i (drop_bit 1 red) (drop_bit 1 cd) (drop_bit 1 odds)
           (drop_bit 1 c7k) (drop_bit 1 c8k) (drop_bit 1 c4t)
           (deck[i := push_bit 8 suit OR v]))"

definition get_deck_possibilities :: "int list \<Rightarrow> seq_info \<Rightarrow> int list" where
  "get_deck_possibilities deck si =
     possibilities_loop (n_bits_max si) (red_seq si) (cd_seq si) (odd_seq si)
       (c7k_seq si) (c8k_seq si) (c4t_seq si) deck"


subsection \<open>Sequence type bits (sequence\_utilities.h)\<close>

definition SEQ_A6 :: u32 where "SEQ_A6 = 0x1"
definition SEQ_A7 :: u32 where "SEQ_A7 = 0x2"
definition SEQ_27 :: u32 where "SEQ_27 = 0x4"
definition SEQ_28 :: u32 where "SEQ_28 = 0x8"
definition SEQ_38 :: u32 where "SEQ_38 = 0x10"
definition SEQ_39 :: u32 where "SEQ_39 = 0x20"
definition SEQ_49 :: u32 where "SEQ_49 = 0x40"
definition SEQ_4T :: u32 where "SEQ_4T = 0x80"
definition SEQ_5T :: u32 where "SEQ_5T = 0x100"
definition SEQ_5J :: u32 where "SEQ_5J = 0x200"
definition SEQ_6J :: u32 where "SEQ_6J = 0x400"
definition SEQ_6Q :: u32 where "SEQ_6Q = 0x800"
definition SEQ_7Q :: u32 where "SEQ_7Q = 0x1000"
definition SEQ_EV :: u32 where "SEQ_EV = 0x2000"
definition SEQ_HD :: u32 where "SEQ_HD = 0x4000"
definition SEQ_CD :: u32 where "SEQ_CD = 0x8000"
definition SEQ_HC :: u32 where "SEQ_HC = 0x10000"
definition SEQ_M34 :: u32 where "SEQ_M34 = 0x20000"
definition SEQ_M46 :: u32 where "SEQ_M46 = 0x40000"
definition SEQ_M47 :: u32 where "SEQ_M47 = 0x80000"
definition SEQ_M58 :: u32 where "SEQ_M58 = 0x100000"
definition SEQ_M59 :: u32 where "SEQ_M59 = 0x200000"
definition SEQ_M6Q :: u32 where "SEQ_M6Q = 0x400000"
definition SEQ_PR :: u32 where "SEQ_PR = 0x800000"
definition SEQ_FI :: u32 where "SEQ_FI = 0x1000000"
definition SEQ_LU :: u32 where "SEQ_LU = 0x2000000"

text \<open>The macro \<^verbatim>\<open>CHECK_FOR_BRACELET_SEQUENCE(ARRAY_NAME, SEQ_BIT)\<close>, acting on the
  locals \<^verbatim>\<open>sequence_type_bits\<close> and \<^verbatim>\<open>sequence_count\<close>.\<close>

definition check_for_bracelet_sequence ::
  "deck_info \<Rightarrow> int list \<times> u32 \<Rightarrow> u32 \<times> int \<Rightarrow> u32 \<times> int" where
  "check_for_bracelet_sequence di chk st =
     (case chk of (value_array, seq_bit) \<Rightarrow>
      case st of (type_bits, seq_count) \<Rightarrow>
        if bit_has_unique_subsequences (deck_get_sequence_from_deck value_array di)
        then (type_bits OR seq_bit, seq_count + 1)
        else (type_bits, seq_count))"

definition consecutive_checks :: "(int list \<times> u32) list" where
  "consecutive_checks =
     [([2, 3, 4, 5, 6, 7], SEQ_27), ([2, 3, 4, 5, 6, 7, 8], SEQ_28),
      ([3, 4, 5, 6, 7, 8], SEQ_38), ([3, 4, 5, 6, 7, 8, 9], SEQ_39),
      ([4, 5, 6, 7, 8, 9], SEQ_49), ([5, 6, 7, 8, 9, 10], SEQ_5T),
      ([5, 6, 7, 8, 9, 10, 11], SEQ_5J), ([6, 7, 8, 9, 10, 11], SEQ_6J),
      ([6, 7, 8, 9, 10, 11, 12], SEQ_6Q), ([7, 8, 9, 10, 11, 12], SEQ_7Q)]"

definition special_checks :: "(int list \<times> u32) list" where
  "special_checks =
     [([3, 4, 6, 8, 9, 12], SEQ_M34), ([4, 5, 6, 8, 10, 12], SEQ_M46),
      ([4, 5, 6, 7, 8, 10, 12], SEQ_M47), ([5, 6, 7, 8, 10, 12], SEQ_M58),
      ([5, 6, 7, 8, 9, 10, 12], SEQ_M59), ([6, 7, 8, 9, 10, 12], SEQ_M6Q),
      ([2, 3, 5, 7, 11, 13], SEQ_PR), ([1, 2, 3, 5, 8, 13], SEQ_FI),
      ([1, 2, 3, 4, 7, 11], SEQ_LU)]"

definition input_sequence_bits :: u32 where
  "input_sequence_bits = SEQ_A6 OR SEQ_A7 OR SEQ_4T OR SEQ_EV OR SEQ_HD OR SEQ_CD OR SEQ_HC"

definition test_deck_for_special_sequences :: "deck_info \<Rightarrow> u32 \<times> deck_info" where
  "test_deck_for_special_sequences di =
     (let st0 = (0 OR input_sequence_bits, 0);
          st1 = foldl (\<lambda>st chk. check_for_bracelet_sequence di chk st) st0 consecutive_checks;
          st2 = (if find_all_sequences_flag di
                 then foldl (\<lambda>st chk. check_for_bracelet_sequence di chk st) st1 special_checks
                 else st1)
      in (fst st2, di\<lparr>sequence_count := snd st2\<rparr>))"

subsection \<open>The spread score\<close>

definition penalty :: "int \<Rightarrow> int" where
  "penalty d = (if d = 1 then 32 else if d = 2 then 16 else if d = 3 then 8
                else if d = 4 then 4 else if d = 5 then 2 else if d = 6 then 1 else 0)"

text \<open>
  \<^verbatim>\<open>deck_get_dup_count_score\<close>. The locals are kept in a record because the second
  loop reads what the first one left in them. The two \<^verbatim>\<open>ASSERT\<close>s on the card value
  guard the index into \<^verbatim>\<open>last_value_position_array\<close>: a card value outside 1..13
  is the result \<open>None\<close>.
\<close>

record dup_vars =
  last_value_position_array :: "int list"
  value_position_diff :: int
  dup_count :: int

fun for_loop :: "nat list \<Rightarrow> (nat \<Rightarrow> 's \<Rightarrow> 's option) \<Rightarrow> 's \<Rightarrow> 's option" where
  "for_loop [] body s = Some s"
| "for_loop (i # rest) body s =
     (case body i s of None \<Rightarrow> None | Some s' \<Rightarrow> for_loop rest body s')"

definition dup_main_body :: "int list \<Rightarrow> nat \<Rightarrow> dup_vars \<Rightarrow> dup_vars option" where
  "dup_main_body temp i s =
     (let card = temp ! i; card_value = card AND 0xF in
      if \<not> (card_value > 0 \<and> card_value \<le> 13) then None
      else
        (let k = nat (card_value - 1);
             last_value_position = last_value_position_array s ! k;
             s1 = s\<lparr>last_value_position_array := (last_value_position_array s)[k := int i]\<rparr>
         in if last_value_position \<ge> 0 then
              (let d = int i - last_value_position
               in Some (s1\<lparr>value_position_diff := d, dup_count := dup_count s1 + penalty d\<rparr>))
            else Some s1))"

definition dup_wrap_body :: "int list \<Rightarrow> nat \<Rightarrow> dup_vars \<Rightarrow> dup_vars option" where
  "dup_wrap_body temp i s =
     (let card = temp ! i; card_value = card AND 0xF in
      if \<not> (card_value > 0 \<and> card_value \<le> 13) then None
      else
        (let k = nat (card_value - 1);
             last_value_position = last_value_position_array s ! k;
             s1 = s\<lparr>last_value_position_array := (last_value_position_array s)[k := int i]\<rparr>;
             s2 = (if last_value_position > 5 then
                     (if last_value_position > 46
                      then s1\<lparr>value_position_diff := int i - (last_value_position - 52)\<rparr>
                      else s1\<lparr>value_position_diff := last_value_position - int i\<rparr>)
                   else s1)
         in Some (s2\<lparr>dup_count := dup_count s2 + penalty (value_position_diff s2)\<rparr>)))"

definition deck_get_dup_count_score :: "deck_info \<Rightarrow> int option" where
  "deck_get_dup_count_score di =
     (case for_loop [0..<deck_length di] (dup_main_body (temp_deck_array di))
             \<lparr>last_value_position_array = replicate 13 (- 1), value_position_diff = 0,
              dup_count = 0\<rparr> of
        None \<Rightarrow> None
      | Some s1 \<Rightarrow>
          (case for_loop [0..<5] (dup_wrap_body (temp_deck_array di)) s1 of
             None \<Rightarrow> None
           | Some s2 \<Rightarrow> Some (65535 - dup_count s2)))"

definition get_deck_score :: "deck_info \<Rightarrow> (int \<times> deck_info) option" where
  "get_deck_score di =
     (case test_deck_for_special_sequences di of (type_bits, di1) \<Rightarrow>
        (let score = push_bit 16 (bit_count_set_bits type_bits)
         in case deck_get_dup_count_score di1 of
              None \<Rightarrow> None
            | Some dup \<Rightarrow> Some (score OR dup, di1)))"

subsection \<open>The deck realizer\<close>

text \<open>
  The sixteen pairs of index arrays of \<^verbatim>\<open>find_best_deck_order\<close> are one table keyed by
  (ambiguous value, suit): \<^verbatim>\<open>xa3_spade_array\<close> is the entry at
  \<open>(VALUE_ACE_OR_THREE, SUIT_SPADE)\<close>, and the counter \<^verbatim>\<open>xa3s\<close> of the scan is its
  length. The C arrays hold two entries; a third occurrence is written past their end, and
  the count check that follows rejects such a bundle.
  Each group below is (ambiguous value, suit, lower card, higher card, bit of \<^verbatim>\<open>i\<close>
  that chooses), listed in the order in which the code assigns the cards.
\<close>

definition ambiguous_groups :: "(int \<times> int \<times> int \<times> int \<times> nat) list" where
  "ambiguous_groups =
     [(VALUE_ACE_OR_THREE, SUIT_SPADE, 1, 3, 0), (VALUE_ACE_OR_THREE, SUIT_HEART, 1, 3, 4),
      (VALUE_ACE_OR_THREE, SUIT_CLUB, 1, 3, 8), (VALUE_ACE_OR_THREE, SUIT_DIAMOND, 1, 3, 12),
      (VALUE_FOUR_OR_SIX, SUIT_SPADE, 4, 6, 1), (VALUE_FOUR_OR_SIX, SUIT_HEART, 4, 6, 5),
      (VALUE_FOUR_OR_SIX, SUIT_CLUB, 4, 6, 9), (VALUE_FOUR_OR_SIX, SUIT_DIAMOND, 4, 6, 13),
      (VALUE_EIGHT_OR_TEN, SUIT_SPADE, 8, 10, 2), (VALUE_EIGHT_OR_TEN, SUIT_HEART, 8, 10, 6),
      (VALUE_EIGHT_OR_TEN, SUIT_CLUB, 8, 10, 10), (VALUE_EIGHT_OR_TEN, SUIT_DIAMOND, 8, 10, 14),
      (VALUE_JACK_OR_KING, SUIT_SPADE, 11, 13, 3), (VALUE_JACK_OR_KING, SUIT_HEART, 11, 13, 7),
      (VALUE_JACK_OR_KING, SUIT_CLUB, 11, 13, 11), (VALUE_JACK_OR_KING, SUIT_DIAMOND, 11, 13, 15)]"

type_synonym index_arrays = "int \<times> int \<Rightarrow> nat list"

definition index_step :: "int list \<Rightarrow> index_arrays \<Rightarrow> nat \<Rightarrow> index_arrays" where
  "index_step temp idx i =
     (let v = temp ! i AND 0xFF;
          suit = drop_bit 8 (temp ! i);
          array_suit = (if suit = SUIT_SPADE then SUIT_SPADE
                        else if suit = SUIT_HEART then SUIT_HEART
                        else if suit = SUIT_CLUB then SUIT_CLUB
                        else SUIT_DIAMOND)
      in if v = VALUE_ACE_OR_THREE \<or> v = VALUE_FOUR_OR_SIX
            \<or> v = VALUE_EIGHT_OR_TEN \<or> v = VALUE_JACK_OR_KING
         then idx((v, array_suit) := idx (v, array_suit) @ [i])
         else idx)"

definition index_ambiguities :: "nat \<Rightarrow> int list \<Rightarrow> index_arrays" where
  "index_ambiguities n temp = foldl (index_step temp) (\<lambda>k. []) [0..<n]"

definition counts_valid :: "index_arrays \<Rightarrow> bool" where
  "counts_valid idx = list_all (\<lambda>(m, s, lo, hi, b). length (idx (m, s)) = 2) ambiguous_groups"

definition fill_group :: "index_arrays \<Rightarrow> nat \<Rightarrow> int list \<Rightarrow> int \<times> int \<times> int \<times> int \<times> nat \<Rightarrow> int list" where
  "fill_group idx i temp g =
     (case g of (m, s, lo, hi, b) \<Rightarrow>
        (let x = (if bit i b then 1 else 0);
             index0 = idx (m, s) ! x;
             index1 = idx (m, s) ! (1 - x)
         in (temp[index0 := push_bit 8 s OR lo])[index1 := push_bit 8 s OR hi]))"

definition fill_ambiguous :: "index_arrays \<Rightarrow> nat \<Rightarrow> int list \<Rightarrow> int list" where
  "fill_ambiguous idx i temp = foldl (fill_group idx i) temp ambiguous_groups"

definition copy_deck :: "nat \<Rightarrow> int list \<Rightarrow> int list \<Rightarrow> int list" where
  "copy_deck n src dst = foldl (\<lambda>d j. d[j := src ! j]) dst [0..<n]"

record best_vars =
  best_score :: int
  best_sequence_type_bits :: u32
  maximum_sequence_count :: int
  first_sequence_found :: bool

definition realize_body ::
  "seq_info \<Rightarrow> index_arrays \<Rightarrow> nat \<Rightarrow> deck_info \<times> best_vars \<Rightarrow> (deck_info \<times> best_vars) option" where
  "realize_body si idx i st =
     (case st of (di, bv) \<Rightarrow>
      case test_deck_for_special_sequences
             (di\<lparr>temp_deck_array := fill_ambiguous idx i (temp_deck_array di)\<rparr>) of
        (type_bits, di1) \<Rightarrow>
          if type_bits \<noteq> 0 then
            (if sequence_count di1 \<ge> maximum_sequence_count bv then
               (let bv1 = bv\<lparr>maximum_sequence_count := sequence_count di1\<rparr>;
                    bv2 = (if first_sequence_found bv1
                           then bv1\<lparr>first_sequence_found := False, best_score := TINY_DECK_SCORE\<rparr>
                           else bv1)
                in case get_deck_score di1 of
                     None \<Rightarrow> None
                   | Some (score, di2) \<Rightarrow>
                       if best_score bv2 < score then
                         Some (di2\<lparr>deck_array :=
                                      copy_deck (deck_length di2) (temp_deck_array di2) (deck_array di2)\<rparr>,
                               bv2\<lparr>best_score := score,
                                   best_sequence_type_bits := type_bits\<rparr>)
                       else Some (di2, bv2))
             else Some (di1, bv))
          else if deck_array di1 ! 0 = 0 then
            (case get_deck_score di1 of
               None \<Rightarrow> None
             | Some (score, di2) \<Rightarrow>
                 Some (di2\<lparr>deck_array :=
                              copy_deck (n_bits_max si) (temp_deck_array di2) (deck_array di2)\<rparr>,
                       bv\<lparr>best_score := score\<rparr>))
          else Some (di1, bv))"

text \<open>
  \<^verbatim>\<open>memset(&deck_array[0], 0, n_bits_max)\<close> clears \<^verbatim>\<open>n_bits_max\<close> bytes, that is
  the first \<^verbatim>\<open>n_bits_max / 4\<close> entries of an array of 4-byte integers.
\<close>

definition memset_zero :: "nat \<Rightarrow> int list \<Rightarrow> int list" where
  "memset_zero nbytes xs =
     (let full = nbytes div 4;
          ys = replicate (min full (length xs)) 0 @ drop full xs
      in if nbytes mod 4 \<noteq> 0 \<and> full < length xs
         then ys[full := (ys ! full) AND NOT (mask (8 * (nbytes mod 4)))]
         else ys)"

definition pass_back :: "deck_info \<Rightarrow> best_vars \<Rightarrow> deck_info" where
  "pass_back di bv =
     di\<lparr>deck_score := best_score bv, sequence_type_bits := best_sequence_type_bits bv\<rparr>"

definition find_best_deck_order :: "deck_info \<Rightarrow> seq_info \<Rightarrow> deck_info option" where
  "find_best_deck_order di si =
     (let bv0 = \<lparr>best_score = TINY_DECK_SCORE, best_sequence_type_bits = 0,
                 maximum_sequence_count = 0, first_sequence_found = True\<rparr>;
          di0 = di\<lparr>deck_array := memset_zero (n_bits_max si) (deck_array di),
                   temp_deck_array := memset_zero (n_bits_max si) (temp_deck_array di)\<rparr>;
          di1 = di0\<lparr>temp_deck_array := get_deck_possibilities (temp_deck_array di0) si\<rparr>
      in if deck_is_value_in_array 0 (take (n_bits_max si) (temp_deck_array di1))
         then Some (pass_back di1 bv0)
         else
           (let idx = index_ambiguities (n_bits_max si) (temp_deck_array di1)
            in if \<not> counts_valid idx then Some (pass_back di1 bv0)
               else (case for_loop [0..<65536] (realize_body si idx) (di1, bv0) of
                       None \<Rightarrow> None
                     | Some (di2, bv) \<Rightarrow> Some (pass_back di2 bv))))"

subsection \<open>Counting set bits: the loop counts the one-bits\<close>

definition pop_nat :: "nat \<Rightarrow> nat" where
  "pop_nat n = card {i. bit n i}"

lemma finite_bits_nat: "finite {i. bit (n::nat) i}"
proof -
  have "{i. bit n i} \<subseteq> {i. i < n}"
  proof
    fix i assume "i \<in> {i. bit n i}"
    then have b: "bit n i" by simp
    have "2 ^ i \<le> n"
    proof (rule ccontr)
      assume "\<not> 2 ^ i \<le> n"
      then have "n div 2 ^ i = 0" by simp
      with b show False by (simp add: bit_iff_odd)
    qed
    moreover have "i < (2::nat) ^ i" by (rule less_exp)
    ultimately have "i < n" by (rule less_le_trans[rotated])
    then show "i \<in> {i. i < n}" by simp
  qed
  then show ?thesis by (rule finite_subset) simp
qed

lemma bits_double: "{i. bit (2 * m :: nat) i} = Suc ` {i. bit m i}"
proof (rule set_eqI)
  fix i show "(i \<in> {i. bit (2 * m) i}) = (i \<in> Suc ` {i. bit m i})"
    by (cases i) (auto simp add: bit_0 bit_Suc image_iff)
qed

lemma bits_double1: "{i. bit (2 * m + 1 :: nat) i} = insert 0 (Suc ` {i. bit m i})"
proof (rule set_eqI)
  fix i show "(i \<in> {i. bit (2 * m + 1) i}) = (i \<in> insert 0 (Suc ` {i. bit m i}))"
    by (cases i) (auto simp add: bit_0 bit_Suc image_iff)
qed

lemma pop_double: "pop_nat (2 * m) = pop_nat m"
  unfolding pop_nat_def bits_double by (simp add: card_image)

lemma pop_double1: "pop_nat (2 * m + 1) = Suc (pop_nat m)"
  unfolding pop_nat_def bits_double1
  by (subst card_insert_disjoint) (auto simp add: card_image finite_bits_nat)

lemma and_pred_even: "0 < m \<Longrightarrow> (2 * m) AND (2 * m - 1) = 2 * (m AND (m - 1))" for m :: nat
proof -
  assume m: "0 < m"
  then have e: "2 * m - 1 = 2 * (m - 1) + 1" by simp
  show ?thesis unfolding e
  proof (rule bit_eqI)
    fix i show "bit (2 * m AND 2 * (m - 1) + 1) i = bit (2 * (m AND (m - 1))) i"
      by (cases i) (simp_all only: bit_and_iff, simp_all add: bit_0 bit_Suc bit_and_iff)
  qed
qed

lemma and_pred_odd: "(2 * m + 1) AND (2 * m + 1 - 1) = 2 * m" for m :: nat
proof (rule bit_eqI)
  fix i show "bit ((2 * m + 1) AND (2 * m + 1 - 1)) i = bit (2 * m) i"
    by (cases i) (simp_all only: bit_and_iff, simp_all add: bit_0 bit_Suc)
qed

lemma pop_clear_lowest: "0 < n \<Longrightarrow> Suc (pop_nat (n AND (n - 1))) = pop_nat n"
proof (induction n rule: less_induct)
  case (less n)
  show ?case
  proof (cases "even n")
    case True
    then obtain m where n: "n = 2 * m" by (auto elim: evenE)
    with less.prems have m: "0 < m" by simp
    then have "m < n" using n by simp
    from less.IH[OF this m] show ?thesis
      unfolding n and_pred_even[OF m] pop_double by simp
  next
    case False
    then obtain m where n: "n = 2 * m + 1" by (auto elim: oddE)
    show ?thesis unfolding n and_pred_odd pop_double pop_double1 by simp
  qed
qed


definition pop32 :: "u32 \<Rightarrow> nat" where
  "pop32 v = card {i. bit v i}"

lemma pop32_nat: "pop32 v = pop_nat (unat v)"
  by (simp add: pop32_def pop_nat_def bit_unsigned_iff)

lemma unat_clear_lowest: "v \<noteq> 0 \<Longrightarrow> unat (v AND (v - 1)) = unat v AND (unat v - 1)" for v :: u32
  by (simp add: unsigned_and_eq unat_minus_one)

lemma count_loop_pop: "count_loop v c = c + int (pop32 v)"
proof (induction v c rule: count_loop.induct)
  case (1 v c)
  show ?case
  proof (cases "v = 0")
    case True
    then show ?thesis by (simp add: count_loop.simps pop32_def)
  next
    case False
    then have pos: "0 < unat v" by (simp add: unat_gt_0)
    have "count_loop v c = count_loop (v AND (v - 1)) (c + 1)"
      using False by (subst count_loop.simps) simp
    also have "\<dots> = c + 1 + int (pop32 (v AND (v - 1)))"
      using "1.IH"[OF False] .
    also have "\<dots> = c + int (pop32 v)"
      using pop_clear_lowest[OF pos] by (simp add: pop32_nat unat_clear_lowest[OF False])
    finally show ?thesis .
  qed
qed

lemma bit_count_set_bits_card: "bit_count_set_bits v = int (card {i. bit v i})"
  by (simp add: bit_count_set_bits_def count_loop_pop pop32_def)

lemma check_keeps_bits:
  "fst st AND m = m \<Longrightarrow> fst (check_for_bracelet_sequence di chk st) AND m = m"
  by (cases chk; cases st) (auto simp add: check_for_bracelet_sequence_def bit_eq_iff bit_simps)

lemma checks_keep_bits:
  "fst st AND m = m \<Longrightarrow>
   fst (foldl (\<lambda>st chk. check_for_bracelet_sequence di chk st) st chks) AND m = m"
  by (induction chks arbitrary: st) (simp_all add: check_keeps_bits)

lemma test_deck_input_bits:
  "fst (test_deck_for_special_sequences di) AND input_sequence_bits = input_sequence_bits"
  by (simp add: test_deck_for_special_sequences_def Let_def checks_keep_bits)

lemma input_bits_set: "{0, 1, 7, 13, 14, 15, 16} \<subseteq> {i. bit input_sequence_bits i}"
  by (simp add: input_sequence_bits_def SEQ_A6_def SEQ_A7_def SEQ_4T_def SEQ_EV_def SEQ_HD_def
        SEQ_CD_def SEQ_HC_def bit_simps)


lemma finite_bits32: "finite {i. bit (v :: u32) i}"
proof -
  have "{i. bit v i} \<subseteq> {i. i < 32}"
    by (auto dest: bit_imp_le_length)
  then show ?thesis by (rule finite_subset) simp
qed

lemma input_bit_kept:
  assumes m: "m AND input_sequence_bits = input_sequence_bits"
      and b: "input_sequence_bits AND b = b"
  shows "m AND b = (b :: u32)"
proof -
  have "m AND b = m AND (input_sequence_bits AND b)" by (simp only: b)
  also have "\<dots> = (m AND input_sequence_bits) AND b" by (simp only: and.assoc)
  also have "\<dots> = b" by (simp only: m b)
  finally show ?thesis .
qed

text \<open>
  Claim C9. Whatever the deck holds, the mask returned by
  \<^verbatim>\<open>test_deck_for_special_sequences\<close> has the seven input sequence bits SEQ\_A6,
  SEQ\_A7, SEQ\_4T, SEQ\_EV, SEQ\_HD, SEQ\_CD and SEQ\_HC set; so the mask is never zero and
  the number of its set bits, as \<^verbatim>\<open>bit_count_set_bits\<close> counts them, is at least 7.
\<close>

theorem test_deck_sets_input_sequences:
  "fst (test_deck_for_special_sequences di) AND SEQ_A6 = SEQ_A6
   \<and> fst (test_deck_for_special_sequences di) AND SEQ_A7 = SEQ_A7
   \<and> fst (test_deck_for_special_sequences di) AND SEQ_4T = SEQ_4T
   \<and> fst (test_deck_for_special_sequences di) AND SEQ_EV = SEQ_EV
   \<and> fst (test_deck_for_special_sequences di) AND SEQ_HD = SEQ_HD
   \<and> fst (test_deck_for_special_sequences di) AND SEQ_CD = SEQ_CD
   \<and> fst (test_deck_for_special_sequences di) AND SEQ_HC = SEQ_HC
   \<and> fst (test_deck_for_special_sequences di) \<noteq> 0
   \<and> 7 \<le> bit_count_set_bits (fst (test_deck_for_special_sequences di))"
proof -
  let ?m = "fst (test_deck_for_special_sequences di)"
  have m: "?m AND input_sequence_bits = input_sequence_bits"
    by (rule test_deck_input_bits)
  have sub: "input_sequence_bits AND SEQ_A6 = SEQ_A6" "input_sequence_bits AND SEQ_A7 = SEQ_A7"
    "input_sequence_bits AND SEQ_4T = SEQ_4T" "input_sequence_bits AND SEQ_EV = SEQ_EV"
    "input_sequence_bits AND SEQ_HD = SEQ_HD" "input_sequence_bits AND SEQ_CD = SEQ_CD"
    "input_sequence_bits AND SEQ_HC = SEQ_HC"
    by (simp_all add: input_sequence_bits_def SEQ_A6_def SEQ_A7_def SEQ_4T_def SEQ_EV_def
          SEQ_HD_def SEQ_CD_def SEQ_HC_def)
  have nz: "?m \<noteq> 0"
  proof
    assume "?m = 0"
    with m have "input_sequence_bits = 0" by simp
    then show False
      by (simp add: input_sequence_bits_def SEQ_A6_def SEQ_A7_def SEQ_4T_def SEQ_EV_def
            SEQ_HD_def SEQ_CD_def SEQ_HC_def)
  qed
  have "{i. bit input_sequence_bits i} \<subseteq> {i. bit ?m i}"
  proof
    fix i assume "i \<in> {i. bit input_sequence_bits i}"
    then have "bit (?m AND input_sequence_bits) i" by (simp only: m) simp
    then show "i \<in> {i. bit ?m i}" by (simp add: bit_and_iff)
  qed
  with input_bits_set have "{0, 1, 7, 13, 14, 15, 16} \<subseteq> {i. bit ?m i}" by (rule subset_trans)
  then have "card {0, 1, 7, 13, 14, 15, 16 :: nat} \<le> card {i. bit ?m i}"
    by (rule card_mono[OF finite_bits32])
  then have cnt: "7 \<le> bit_count_set_bits ?m"
    by (simp add: bit_count_set_bits_card)
  show ?thesis
    using input_bit_kept[OF m sub(1)] input_bit_kept[OF m sub(2)] input_bit_kept[OF m sub(3)]
      input_bit_kept[OF m sub(4)] input_bit_kept[OF m sub(5)] input_bit_kept[OF m sub(6)]
      input_bit_kept[OF m sub(7)] nz cnt
    by blast
qed

subsection \<open>The spread score against its description\<close>

text \<open>
  The description of the spread score, written from the specification's words and not from
  the code: for every card value, take the positions where it occurs; every two consecutive
  occurrences are a pair at their linear distance, and the last and the first occurrence
  are a pair at their cyclic distance across the end of the 52 positions. Each pair
  contributes its penalty once.
\<close>

definition occurrences :: "int list \<Rightarrow> int \<Rightarrow> nat list" where
  "occurrences deck v = filter (\<lambda>i. deck ! i AND 0xF = v) [0..<52]"

definition spec_pair_penalties :: "nat list \<Rightarrow> int" where
  "spec_pair_penalties ps =
     (\<Sum>(a, b) \<leftarrow> zip ps (tl ps). penalty (int b - int a))
     + (if 2 \<le> length ps then penalty (int (hd ps) + 52 - int (last ps)) else 0)"

definition spec_dup_count_score :: "deck_info \<Rightarrow> int" where
  "spec_dup_count_score di =
     65535 - (\<Sum>v \<leftarrow> [1..13]. spec_pair_penalties (occurrences (temp_deck_array di) v))"

text \<open>A full deck ordered by value: the four aces, the four twos, and so on.\<close>

definition deck_by_value :: deck_info where
  "deck_by_value =
     \<lparr> deck_array = replicate 64 0,
       temp_deck_array =
         [1, 257, 513, 769, 2, 258, 514, 770, 3, 259, 515, 771, 4, 260, 516, 772,
          5, 261, 517, 773, 6, 262, 518, 774, 7, 263, 519, 775, 8, 264, 520, 776,
          9, 265, 521, 777, 10, 266, 522, 778, 11, 267, 523, 779, 12, 268, 524, 780,
          13, 269, 525, 781, 0, 0, 0, 0, 0, 0, 0, 0, 0, 0, 0, 0],
       deck_length = 52, deck_score = 0, sequence_count = 0, sequence_type_bits = 0,
       find_all_sequences_flag = False \<rparr>"

text \<open>
  Claim C5 (the code departs from it). On the deck ordered by value the only pairs within
  distance 6 are the 39 pairs of neighbours, so the described score is
  \<open>65535 - 39 * 32 = 64287\<close>. The code returns 64151: its second loop adds the penalty of
  the stale \<^verbatim>\<open>value_position_diff\<close> left by the first loop for each of the first four
  cards, and a penalty for the non-consecutive pair at positions 4 and 7.
\<close>

theorem dup_count_score_double_counts:
  "deck_get_dup_count_score deck_by_value = Some 64151
   \<and> spec_dup_count_score deck_by_value = 64287"
proof -
  have "deck_get_dup_count_score deck_by_value = Some 64151" by code_simp
  moreover have "spec_dup_count_score deck_by_value = 64287" by code_simp
  ultimately show ?thesis by simp
qed

subsection \<open>Reading a sequence group (umake\_decks\_main)\<close>

text \<open>
  \<^verbatim>\<open>bit_get_integer_seq\<close> reads the characters of a C string: blanks and tabs are
  skipped, the end of the string or a newline stops the loop, \<^verbatim>\<open>'1'\<close> appends a one-bit
  and every other character a zero-bit.
\<close>

fun integer_seq_loop :: "string \<Rightarrow> u64 \<Rightarrow> u64" where
  "integer_seq_loop [] seq = seq"
| "integer_seq_loop (digit # rest) seq =
     (if digit = CHR '' '' \<or> digit = CHR 0x09 then integer_seq_loop rest seq
      else if digit = CHR 0x0A then seq
      else (let seq1 = push_bit 1 seq
            in integer_seq_loop rest (if digit = CHR ''1'' then seq1 OR 1 else seq1)))"

definition bit_get_integer_seq :: "string \<Rightarrow> u64" where
  "bit_get_integer_seq sequence_ptr = integer_seq_loop sequence_ptr 0"

text \<open>The seven text buffers that the lines of a group are copied into.\<close>

record seq_text =
  red_sequence_array :: string
  cd_sequence_array :: string
  hc_sequence_array :: string
  odd_sequence_array :: string
  c7k_sequence_array :: string
  c8k_sequence_array :: string
  c4t_sequence_array :: string

definition convert_sequences :: "seq_text \<Rightarrow> seq_info" where
  "convert_sequences t =
     \<lparr> red_seq = bit_get_integer_seq (red_sequence_array t),
       cd_seq = bit_get_integer_seq (cd_sequence_array t),
       hc_seq = bit_get_integer_seq (hc_sequence_array t),
       odd_seq = bit_get_integer_seq (odd_sequence_array t),
       c7k_seq = bit_get_integer_seq (c7k_sequence_array t),
       c8k_seq = bit_get_integer_seq (c8k_sequence_array t),
       c4t_seq = bit_get_integer_seq (c4t_sequence_array t),
       subsequence_mask = 63, n_bits_max = 52 \<rparr>"

text \<open>
  What the main loop does at the blank line that ends a group (past the skip count):
  convert, verify the sequences, and either \<^verbatim>\<open>exit(-1)\<close> or call
  \<^verbatim>\<open>find_best_deck_order\<close>.
\<close>

datatype group_outcome = Exit_invalid_sequence | Realized "deck_info option"

definition sequence_check_fails :: "seq_info \<Rightarrow> bool" where
  "sequence_check_fails si =
     (\<not> bit_has_unique_subsequences (red_seq si)
      \<or> \<not> bit_has_unique_subsequences (cd_seq si)
      \<or> \<not> bit_has_unique_subsequences (odd_seq si)
      \<or> \<not> bit_has_unique_subsequences (c7k_seq si)
      \<or> \<not> bit_has_unique_subsequences (c8k_seq si)
      \<or> \<not> bit_has_unique_subsequences (c4t_seq si))"

definition process_sequence_group :: "deck_info \<Rightarrow> seq_text \<Rightarrow> group_outcome" where
  "process_sequence_group di t =
     (let si = convert_sequences t
      in if sequence_check_fails si then Exit_invalid_sequence
         else Realized (find_best_deck_order di si))"

text \<open>The deck information as \<^verbatim>\<open>umake_decks_main\<close> initialises it.\<close>

definition initial_deck_info :: "bool \<Rightarrow> deck_info" where
  "initial_deck_info find_all =
     \<lparr> deck_array = replicate 64 0, temp_deck_array = replicate 64 0, deck_length = 52,
       deck_score = 0, sequence_count = 0, sequence_type_bits = 0,
       find_all_sequences_flag = find_all \<rparr>"

text \<open>A group whose HC line is all zeros; the other six lines are bracelet sequences.\<close>

definition group_with_bad_hc :: seq_text where
  "group_with_bad_hc =
     \<lparr> red_sequence_array = ''0100110101111110001111011101000011001011011000001010'',
       cd_sequence_array = ''0011110111010100100000111000101011111001100101100001'',
       hc_sequence_array = ''0000000000000000000000000000000000000000000000000000'',
       odd_sequence_array = ''1100010100100000011000010011101000111110111001101011'',
       c7k_sequence_array = ''0101000110111010011000011110010010110011100010000001'',
       c8k_sequence_array = ''0101000110111010011000011110010010110011100010000001'',
       c4t_sequence_array = ''0011000011011110101110001001010100000010110011101101'' \<rparr>"

lemma bad_hc_converted:
  "convert_sequences group_with_bad_hc =
     \<lparr> red_seq = 0x4d7e3dd0cb60a, cd_seq = 0x3dd4838af9961, hc_seq = 0,
       odd_seq = 0xc520613a3ee6b, c7k_seq = 0x51ba61e4b3881, c8k_seq = 0x51ba61e4b3881,
       c4t_seq = 0x30deb89502ced, subsequence_mask = 63, n_bits_max = 52 \<rparr>"
  by code_simp

lemma bad_hc_check_passes: "\<not> sequence_check_fails (convert_sequences group_with_bad_hc)"
  unfolding bad_hc_converted
  by (simp add: sequence_check_fails_def bit_has_unique_subsequences_def unique_loop.simps)

text \<open>
  Claim C6 (the code departs from it). The HC sequence of this group fails bracelet
  validation, yet the check passes and the group is handed to \<^verbatim>\<open>find_best_deck_order\<close>:
  the check tests RED, CD, ODD, 7K, 8K and 4T, and leaves HC out.
\<close>

theorem invalid_hc_is_realized:
  "\<not> bit_has_unique_subsequences (hc_seq (convert_sequences group_with_bad_hc))
   \<and> process_sequence_group (initial_deck_info False) group_with_bad_hc
       = Realized (find_best_deck_order (initial_deck_info False)
                     (convert_sequences group_with_bad_hc))"
proof -
  have "\<not> bit_has_unique_subsequences (hc_seq (convert_sequences group_with_bad_hc))"
    unfolding bad_hc_converted
    by (simp add: bit_has_unique_subsequences_def unique_loop.simps)
  then show ?thesis
    using bad_hc_check_passes by (simp add: process_sequence_group_def)
qed

section \<open>Sequence cache (f64\_seq.c)\<close>

text \<open>
  A handle on a cached file: the loaded array and this handle's cursor. The field
  \<^verbatim>\<open>count\<close> of the C structure is the length of the array.
\<close>

record f64_seq =
  sequence_ptr :: "u64 list"
  seq_index :: nat

definition f64_reset :: "f64_seq \<Rightarrow> f64_seq" where
  "f64_reset f64 = f64\<lparr>seq_index := 0\<rparr>"

definition f64_next :: "f64_seq \<Rightarrow> u64 \<times> f64_seq" where
  "f64_next f64 =
     (if seq_index f64 < length (sequence_ptr f64)
      then (sequence_ptr f64 ! seq_index f64, f64\<lparr>seq_index := seq_index f64 + 1\<rparr>)
      else (0, f64))"

section \<open>Compound search (ultimate\_search.c)\<close>

subsection \<open>Filters\<close>

function uniform_loop :: "nat \<Rightarrow> u64 \<Rightarrow> bool" where
  "uniform_loop i wseq =
     (if i < 52 then
        (if wseq AND 0x3F = 0x3F \<or> NOT wseq AND 0x3F = 0x3F then True
         else uniform_loop (i + 1) (drop_bit 1 wseq))
      else False)"
  by pat_completeness auto
termination
  by (relation "measure (\<lambda>(i, wseq). 52 - i)") auto

declare uniform_loop.simps [simp del]

definition has_long_uniform_subsequence :: "u64 \<Rightarrow> bool" where
  "has_long_uniform_subsequence seq = uniform_loop 0 (seq OR push_bit 52 seq)"

lemma clear_lowest_less64: "v \<noteq> 0 \<Longrightarrow> unat (v AND (v - 1)) < unat (v :: u64)"
proof -
  assume nz: "v \<noteq> 0"
  have "v AND (v - 1) \<le> v - 1" by (rule word_and_le1)
  moreover have "v - 1 < v" using nz by (simp add: word_less_nat_alt unat_minus_one unat_gt_0)
  ultimately show ?thesis by (simp add: word_less_nat_alt word_le_nat_alt)
qed

text \<open>\<^verbatim>\<open>count_set_bits_64(value, max_bit_count)\<close> stops counting once the count
  exceeds \<^verbatim>\<open>max_bit_count\<close>.\<close>

function count_bits_loop :: "u64 \<Rightarrow> int \<Rightarrow> int \<Rightarrow> int" where
  "count_bits_loop v cnt max_bit_count =
     (if v \<noteq> 0 then
        (if cnt + 1 > max_bit_count then cnt + 1
         else count_bits_loop (v AND (v - 1)) (cnt + 1) max_bit_count)
      else cnt)"
  by pat_completeness auto
termination
  by (relation "measure (\<lambda>(v, c, m). unat v)") (auto simp add: clear_lowest_less64)

declare count_bits_loop.simps [simp del]

definition count_set_bits_64 :: "u64 \<Rightarrow> int \<Rightarrow> int" where
  "count_set_bits_64 v max_bit_count = count_bits_loop v 0 max_bit_count"

definition is_valid_suit_seq_overlap :: "u64 \<Rightarrow> u64 \<Rightarrow> u64 \<Rightarrow> bool" where
  "is_valid_suit_seq_overlap seq0 seq1 sequence_mask =
     (if count_set_bits_64 (seq0 AND seq1) 13 = 13 \<and> seq0 \<noteq> seq1 then
        (let inv_seq0 = NOT seq0 AND sequence_mask;
             inv_seq1 = NOT seq1 AND sequence_mask
         in if count_set_bits_64 (inv_seq0 AND inv_seq1) 13 = 13 then
              (if count_set_bits_64 (inv_seq0 AND seq1) 13 = 13 then
                 (if count_set_bits_64 (seq0 AND inv_seq1) 13 = 13 then True else False)
               else False)
            else False)
      else False)"

subsection \<open>The search state\<close>

record ultimate_struct =
  red_sequence :: u64
  cd_sequence :: u64
  hc_sequence :: u64
  spade_bits :: u64
  heart_bits :: u64
  club_bits :: u64
  diamond_bits :: u64
  odd_sequence :: u64
  c7k_sequence :: u64
  c8k_sequence :: u64
  c4t_sequence :: u64
  c7k_c8k_diff :: u64
  sequence_mask :: u64
  subsequence_mask_u :: u64
  subsequence_length :: nat
  n_bits_max_u :: nat
  sevens_apart_flag :: bool

text \<open>
  What the search prints for a candidate: the value axes found below the suit level, and
  the three suit sequences read from \<^verbatim>\<open>seq_set\<close> at that moment.
\<close>

record value_axes =
  axes_odd :: u64
  axes_c7k :: u64
  axes_c8k :: "u64 option"
  axes_c4t :: "u64 option"

record candidate =
  cand_axes :: value_axes
  cand_red :: u64
  cand_cd :: u64
  cand_hc :: u64

text \<open>
  The loops below the suit level (odd, 7K, and the 8K and 4T solvers) read the suit fields
  of \<^verbatim>\<open>seq_set\<close> and write only its value fields; no statement there assigns
  \<^verbatim>\<open>red_sequence\<close>, \<^verbatim>\<open>cd_sequence\<close> or \<^verbatim>\<open>hc_sequence\<close>. They are a parameter
  \<open>value_search\<close> of the suit-level loops: given its own state (the odd and 7K handles,
  their skip counts, the flags) and \<^verbatim>\<open>seq_set\<close>, it returns the value axes of the
  candidates it prints, in order, and its new state.
\<close>

record 'w search_vars =
  seq_set :: ultimate_struct
  cd_start_count :: nat
  value_state :: 'w
  printed :: "candidate list"

definition print_candidates :: "ultimate_struct \<Rightarrow> value_axes list \<Rightarrow> candidate list" where
  "print_candidates ss found =
     map (\<lambda>a. \<lparr>cand_axes = a, cand_red = red_sequence ss, cand_cd = cd_sequence ss,
                 cand_hc = hc_sequence ss\<rparr>) found"

text \<open>
  The body of the CD loop after a non-zero \<^verbatim>\<open>cd_sequence\<close> was fetched. Every
  \<^verbatim>\<open>continue\<close> leaves the fields assigned so far in \<^verbatim>\<open>seq_set\<close>.
\<close>

definition suit_stage :: "ultimate_struct \<Rightarrow> bool \<times> ultimate_struct" where
  "suit_stage ss =
     (if \<not> is_valid_suit_seq_overlap (red_sequence ss) (cd_sequence ss) (sequence_mask ss)
      then (False, ss)
      else
       (let ss1 = ss\<lparr>diamond_bits := red_sequence ss AND cd_sequence ss\<rparr> in
        if count_set_bits_64 (diamond_bits ss1) 13 \<noteq> 13 then (False, ss1)
        else
         (let inv_red_sequence = NOT (red_sequence ss1) AND sequence_mask ss1;
              inv_cd_sequence = NOT (cd_sequence ss1) AND sequence_mask ss1;
              ss2 = ss1\<lparr>spade_bits := inv_red_sequence AND inv_cd_sequence\<rparr> in
          if count_set_bits_64 (spade_bits ss2) 13 \<noteq> 13 then (False, ss2)
          else
           (let ss3 = ss2\<lparr>club_bits := inv_red_sequence AND cd_sequence ss2\<rparr> in
            if count_set_bits_64 (club_bits ss3) 13 \<noteq> 13 then (False, ss3)
            else
             (let ss4 = ss3\<lparr>heart_bits := red_sequence ss3 AND inv_cd_sequence\<rparr> in
              if count_set_bits_64 (heart_bits ss4) 13 \<noteq> 13 then (False, ss4)
              else
               (let ss5 = ss4\<lparr>hc_sequence := club_bits ss4 OR heart_bits ss4\<rparr> in
                if count_set_bits_64 (hc_sequence ss5) 26 \<noteq> 26 then (False, ss5)
                else if \<not> bit_has_unique_subsequences (hc_sequence ss5) then (False, ss5)
                else
                 (let ss6 = ss5\<lparr>diamond_bits :=
                                  spade_bits ss5 OR heart_bits ss5 OR club_bits ss5\<rparr>;
                      ss7 = ss6\<lparr>diamond_bits := NOT (diamond_bits ss6) AND sequence_mask ss6\<rparr>;
                      ss8 = ss7\<lparr>red_sequence := heart_bits ss7 OR diamond_bits ss7\<rparr>;
                      ss9 = ss8\<lparr>cd_sequence := club_bits ss8 OR diamond_bits ss8\<rparr>
                  in (True, ss9\<lparr>hc_sequence := club_bits ss9 OR heart_bits ss9\<rparr>))))))))"

definition cd_body ::
  "('w \<Rightarrow> ultimate_struct \<Rightarrow> value_axes list \<times> 'w) \<Rightarrow> 'w search_vars \<Rightarrow> 'w search_vars" where
  "cd_body value_search st =
     (case suit_stage (seq_set st) of
        (False, ss) \<Rightarrow> st\<lparr>seq_set := ss\<rparr>
      | (True, ss) \<Rightarrow>
          (case value_search (value_state st) ss of
             (found, w) \<Rightarrow>
               st\<lparr>seq_set := ss, value_state := w,
                  printed := printed st @ print_candidates ss found\<rparr>))"

function cd_loop ::
  "('w \<Rightarrow> ultimate_struct \<Rightarrow> value_axes list \<times> 'w) \<Rightarrow> f64_seq \<Rightarrow> 'w search_vars
   \<Rightarrow> f64_seq \<times> 'w search_vars" where
  "cd_loop value_search dbn_cd_handle st =
     (case f64_next dbn_cd_handle of
        (cd, h) \<Rightarrow>
          (let st1 = st\<lparr>seq_set := (seq_set st)\<lparr>cd_sequence := cd\<rparr>\<rparr>
           in if cd = 0 then (h, st1)
              else cd_loop value_search h (cd_body value_search st1)))"
  by pat_completeness auto
termination
  by (relation "measure (\<lambda>(vs, h, st). length (sequence_ptr h) - seq_index h)")
     (auto simp add: f64_next_def split: if_splits)

declare cd_loop.simps [simp del]

text \<open>The skip loops: \<^verbatim>\<open>for (k = 0; k < start_count; ++k) x = f64_next(handle);\<close>\<close>

fun skip_sequences :: "nat \<Rightarrow> u64 \<Rightarrow> f64_seq \<Rightarrow> u64 \<times> f64_seq" where
  "skip_sequences 0 x h = (x, h)"
| "skip_sequences (Suc k) x h = (case f64_next h of (x', h') \<Rightarrow> skip_sequences k x' h')"

text \<open>The inner \<^verbatim>\<open>do ... while\<close> of the main loop, which fetches the next red sequence.\<close>

partial_function (option) next_red :: "f64_seq \<Rightarrow> (u64 \<times> f64_seq) option" where
  "next_red dbn_red_handle =
     (case f64_next dbn_red_handle of
        (red, h) \<Rightarrow>
          if has_long_uniform_subsequence red \<or> red = 0 then next_red h
          else Some (red, h))"

text \<open>One round of the main loop for a fetched red sequence, from the reset of the CD
  generator to the end of the CD loop.\<close>

definition red_body ::
  "('w \<Rightarrow> ultimate_struct \<Rightarrow> value_axes list \<times> 'w) \<Rightarrow> f64_seq \<Rightarrow> u64 \<Rightarrow> 'w search_vars
   \<Rightarrow> f64_seq \<times> 'w search_vars" where
  "red_body value_search dbn_cd_handle red st =
     (let st1 = st\<lparr>seq_set := (seq_set st)\<lparr>red_sequence := red\<rparr>\<rparr>;
          h0 = f64_reset dbn_cd_handle
      in if cd_start_count st1 > 0 then
           (case skip_sequences (cd_start_count st1) (cd_sequence (seq_set st1)) h0 of
              (cd, h1) \<Rightarrow>
                cd_loop value_search h1
                  (st1\<lparr>seq_set := (seq_set st1)\<lparr>cd_sequence := cd\<rparr>, cd_start_count := 0\<rparr>))
         else cd_loop value_search h0 st1)"

text \<open>
  The main search loop \<^verbatim>\<open>while (not_done)\<close>. The result \<open>None\<close> is a loop that does
  not return.
\<close>

partial_function (option) search_loop ::
  "('w \<Rightarrow> ultimate_struct \<Rightarrow> value_axes list \<times> 'w) \<Rightarrow> f64_seq \<times> f64_seq \<times> 'w search_vars
   \<Rightarrow> (f64_seq \<times> f64_seq \<times> 'w search_vars) option" where
  "search_loop value_search s =
     (case s of (dbn_red_handle, dbn_cd_handle, st) \<Rightarrow>
        (case next_red dbn_red_handle of
           None \<Rightarrow> None
         | Some (red, h) \<Rightarrow>
             if red = 0 then Some (h, dbn_cd_handle, st\<lparr>seq_set := (seq_set st)\<lparr>red_sequence := red\<rparr>\<rparr>)
             else (case red_body value_search dbn_cd_handle red st of
                     (hc, st') \<Rightarrow> search_loop value_search (h, hc, st'))))"


lemma next_red_accepts:
  assumes "next_red h = Some r"
  shows "\<not> has_long_uniform_subsequence (fst r) \<and> fst r \<noteq> 0"
proof (rule next_red.raw_induct
         [where P = "\<lambda>h r. \<not> has_long_uniform_subsequence (fst r) \<and> fst r \<noteq> 0", OF _ assms])
  fix f h r
  assume IH: "\<And>x y. f x = Some y \<Longrightarrow> \<not> has_long_uniform_subsequence (fst y) \<and> fst y \<noteq> 0"
    and eq: "(case f64_next h of
               (red, h') \<Rightarrow> if has_long_uniform_subsequence red \<or> red = 0 then f h'
                            else Some (red, h')) = Some r"
  show "\<not> has_long_uniform_subsequence (fst r) \<and> fst r \<noteq> 0"
  proof (cases "f64_next h")
    case (Pair red h')
    show ?thesis
    proof (cases "has_long_uniform_subsequence red \<or> red = 0")
      case True
      with eq Pair have "f h' = Some r" by simp
      then show ?thesis by (rule IH)
    next
      case False
      with eq Pair have "r = (red, h')" by simp
      with False show ?thesis by simp
    qed
  qed
qed

lemma search_loop_no_result:
  assumes "search_loop value_search s = Some r"
  shows False
proof (rule search_loop.raw_induct [where P = "\<lambda>vs s r. False", OF _ assms])
  fix f and vs :: "'a \<Rightarrow> ultimate_struct \<Rightarrow> value_axes list \<times> 'a" and s r
  assume IH: "\<And>vs s r. f vs s = Some r \<Longrightarrow> False"
    and eq: "(case s of (dbn_red_handle, dbn_cd_handle, st) \<Rightarrow>
               (case next_red dbn_red_handle of
                  None \<Rightarrow> None
                | Some (red, h) \<Rightarrow>
                    if red = 0
                    then Some (h, dbn_cd_handle, st\<lparr>seq_set := (seq_set st)\<lparr>red_sequence := red\<rparr>\<rparr>)
                    else (case red_body vs dbn_cd_handle red st of
                            (hc, st') \<Rightarrow> f vs (h, hc, st')))) = Some r"
  obtain rh ch st where s: "s = (rh, ch, st)" by (cases s) auto
  show False
  proof (cases "next_red rh")
    case None
    with eq s show False by simp
  next
    case (Some p)
    obtain red h where p: "p = (red, h)" by (cases p) auto
    from next_red_accepts[OF Some] p have nz: "red \<noteq> 0" by simp
    obtain hc st' where b: "red_body vs ch red st = (hc, st')" by (cases "red_body vs ch red st") auto
    from eq s Some p nz b have "f vs (h, hc, st') = Some r" by simp
    then show False by (rule IH)
  qed
qed

lemma search_loop_never_returns: "search_loop value_search s = None"
  using search_loop_no_result[of value_search s] by (cases "search_loop value_search s") auto


lemma next_red_exhausted_aux:
  assumes "next_red h = Some r"
  shows "seq_index h < length (sequence_ptr h)"
proof (rule next_red.raw_induct
         [where P = "\<lambda>h r. seq_index h < length (sequence_ptr h)", OF _ assms])
  fix f h r
  assume IH: "\<And>x y. f x = Some y \<Longrightarrow> seq_index x < length (sequence_ptr x)"
    and eq: "(case f64_next h of
               (red, h') \<Rightarrow> if has_long_uniform_subsequence red \<or> red = 0 then f h'
                            else Some (red, h')) = Some r"
  show "seq_index h < length (sequence_ptr h)"
  proof (rule ccontr)
    assume "\<not> seq_index h < length (sequence_ptr h)"
    then have "f64_next h = (0, h)" by (simp add: f64_next_def)
    with eq have "f h = Some r" by simp
    then have "seq_index h < length (sequence_ptr h)" by (rule IH)
    with \<open>\<not> seq_index h < length (sequence_ptr h)\<close> show False by simp
  qed
qed

lemma next_red_exhausted:
  "length (sequence_ptr h) \<le> seq_index h \<Longrightarrow> next_red h = None"
  using next_red_exhausted_aux[of h] by (cases "next_red h") auto



lemma suit_identity:
  fixes r c m :: u64
  shows "(r AND (NOT c AND m)) OR
         (NOT (((NOT r AND m) AND (NOT c AND m)) OR (r AND (NOT c AND m)) OR ((NOT r AND m) AND c)) AND m)
         = r AND m"
  by (rule bit_eqI) (auto simp add: bit_simps)








subsection \<open>The uniform-run filter decides all-zero and all-one windows\<close>










subsection \<open>Every printed candidate carries a filtered red sequence\<close>
















text \<open>
  Claim C7 (the code departs from it). With the red cache exhausted, \<^verbatim>\<open>f64_next\<close>
  returns 0 on every call; the \<^verbatim>\<open>do ... while\<close> repeats while the fetched value is 0,
  so it never leaves, the test for 0 that follows it is never reached with 0, and the main
  loop does not return.
\<close>

theorem exhausted_red_cache_never_ends:
  "next_red \<lparr>sequence_ptr = [0xdd0a99c96c46b], seq_index = 1\<rparr> = None
   \<and> search_loop value_search
        (\<lparr>sequence_ptr = [0xdd0a99c96c46b], seq_index = 1\<rparr>, dbn_cd_handle, st) = None"
  using next_red_exhausted[of "\<lparr>sequence_ptr = [0xdd0a99c96c46b], seq_index = 1\<rparr>"]
    search_loop_never_returns by simp

section \<open>Properties of the deck realizer\<close>

subsection \<open>The cells written by \<^verbatim>\<open>get_deck_possibilities\<close>\<close>

definition mk_card :: "int \<Rightarrow> int \<Rightarrow> int" where
  "mk_card suit v = push_bit 8 suit OR v"

lemma and_1_cases: "(w :: u64) AND 1 = 0 \<or> w AND 1 = 1"
  by (cases "odd w") (simp_all add: and_one_eq odd_iff_mod_2_eq_one even_iff_mod_2_eq_zero)

lemma suit_range_aux:
  "a = 0 \<or> a = 1 \<Longrightarrow> b = 0 \<or> b = 1 \<Longrightarrow>
   uint (push_bit 1 (a :: u64) OR b) \<in> {0, 1, 2, 3}"
  by auto

lemma suit_range:
  "uint (push_bit 1 ((r :: u64) AND 1) OR (c AND 1)) \<in> {0, 1, 2, 3}"
  by (rule suit_range_aux) (rule and_1_cases)+

lemma value_code_aux:
  "a = 0 \<or> a = 1 \<Longrightarrow> b = 0 \<or> b = 1 \<Longrightarrow> c = 0 \<or> c = 1 \<Longrightarrow> d = 0 \<or> d = 1 \<Longrightarrow>
   unat (push_bit 3 (a :: u64) OR push_bit 2 b OR push_bit 1 c OR d) < 16"
  by auto

lemma value_code_range:
  "unat (push_bit 3 ((a :: u64) AND 1) OR push_bit 2 (b AND 1) OR push_bit 1 (c AND 1) OR (d AND 1)) < 16"
  by (rule value_code_aux) (rule and_1_cases)+

lemma possibilities_length:
  "length (possibilities_loop n r c od k7 k8 k4 deck) = length deck"
  by (induction n arbitrary: r c od k7 k8 k4 deck) (simp_all add: Let_def)

lemma possibilities_unchanged:
  "n \<le> p \<Longrightarrow> possibilities_loop n r c od k7 k8 k4 deck ! p = deck ! p"
  by (induction n arbitrary: r c od k7 k8 k4 deck) (simp_all add: Let_def)

lemma possibilities_cells:
  "p < n \<Longrightarrow> n \<le> length deck \<Longrightarrow>
   \<exists>s \<in> {0, 1, 2, 3}. \<exists>v \<in> set value_lookup_array.
     possibilities_loop n r c od k7 k8 k4 deck ! p = mk_card s v"
proof (induction n arbitrary: r c od k7 k8 k4 deck)
  case 0
  then show ?case by simp
next
  case (Suc n)
  let ?suit = "uint (push_bit 1 (r AND 1) OR (c AND 1))"
  let ?code = "unat (push_bit 3 (od AND 1) OR push_bit 2 (k7 AND 1) OR push_bit 1 (k8 AND 1) OR (k4 AND 1))"
  let ?deck = "deck[n := push_bit 8 ?suit OR value_lookup_array ! ?code]"
  have unf: "possibilities_loop (Suc n) r c od k7 k8 k4 deck =
        possibilities_loop n (drop_bit 1 r) (drop_bit 1 c) (drop_bit 1 od)
           (drop_bit 1 k7) (drop_bit 1 k8) (drop_bit 1 k4) ?deck"
    by (simp add: Let_def)
  show ?case
  proof (cases "p < n")
    case True
    with Suc.prems have "n \<le> length ?deck" by simp
    from Suc.IH[OF True this] show ?thesis unfolding unf .
  next
    case False
    with Suc.prems have p: "p = n" and n: "n < length deck" by simp_all
    have "possibilities_loop (Suc n) r c od k7 k8 k4 deck ! p = ?deck ! n"
      unfolding unf p by (rule possibilities_unchanged) simp
    also have "\<dots> = mk_card ?suit (value_lookup_array ! ?code)"
      using n by (simp add: mk_card_def)
    finally have e: "possibilities_loop (Suc n) r c od k7 k8 k4 deck ! p
                     = mk_card ?suit (value_lookup_array ! ?code)" .
    have "value_lookup_array ! ?code \<in> set value_lookup_array"
      using value_code_range[of od k7 k8 k4] by (intro nth_mem) (simp add: value_lookup_array_def)
    with suit_range[of r c] e show ?thesis by blast
  qed
qed

lemma card_fields:
  assumes "0 \<le> v" "v < 256"
  shows "mk_card s v AND 0xFF = v" and "drop_bit 8 (mk_card s v) = s"
proof -
  have hi: "\<not> bit v n" if "8 \<le> n" for n
  proof -
    have "take_bit 8 v = v" using assms by (simp add: take_bit_int_eq_self)
    then have "bit v n = bit (take_bit 8 v) n" by simp
    also have "\<dots> = False" using that by (simp only: bit_take_bit_iff) simp
    finally show ?thesis by simp
  qed
  have m: "(0xFF :: int) = mask 8" by (simp add: mask_eq_exp_minus_1)
  show "mk_card s v AND 0xFF = v"
    unfolding mk_card_def m using hi by (intro bit_eqI) (auto simp add: bit_simps not_le[symmetric])
  show "drop_bit 8 (mk_card s v) = s"
    unfolding mk_card_def using hi by (intro bit_eqI) (auto simp add: bit_simps)
qed


lemma lookup_range: "v \<in> set value_lookup_array \<Longrightarrow> 0 \<le> v \<and> v < 256"
  by (auto simp add: value_lookup_array_def VALUE_ACE_OR_THREE_def VALUE_FOUR_OR_SIX_def
      VALUE_EIGHT_OR_TEN_def VALUE_JACK_OR_KING_def)

lemma card_inj:
  assumes "0 \<le> v" "v < 256" "0 \<le> w" "w < 256"
  shows "(mk_card s v = mk_card t w) = (s = t \<and> v = w)"
  using card_fields[OF assms(1,2), of s] card_fields[OF assms(3,4), of t] by metis

subsection \<open>The scan for ambiguous cells\<close>

definition marker :: "int \<Rightarrow> bool" where
  "marker v = (v = VALUE_ACE_OR_THREE \<or> v = VALUE_FOUR_OR_SIX
               \<or> v = VALUE_EIGHT_OR_TEN \<or> v = VALUE_JACK_OR_KING)"

definition cell_ok :: "int \<Rightarrow> bool" where
  "cell_ok c = (\<exists>s \<in> {0, 1, 2, 3}. \<exists>v \<in> set value_lookup_array. c = mk_card s v)"

lemma marker_range: "marker m \<Longrightarrow> 0 \<le> m \<and> m < 256"
  by (auto simp add: marker_def VALUE_ACE_OR_THREE_def VALUE_FOUR_OR_SIX_def
      VALUE_EIGHT_OR_TEN_def VALUE_JACK_OR_KING_def)

lemma index_step_cell:
  assumes "temp ! i = mk_card s v" "s \<in> {0, 1, 2, 3}" "0 \<le> v" "v < 256"
  shows "index_step temp idx i = (if marker v then idx((v, s) := idx (v, s) @ [i]) else idx)"
proof -
  have f: "temp ! i AND 0xFF = v" "drop_bit 8 (temp ! i) = s"
    using card_fields[OF assms(3,4), of s] assms(1) by simp_all
  have a: "(if s = SUIT_SPADE then SUIT_SPADE else if s = SUIT_HEART then SUIT_HEART
            else if s = SUIT_CLUB then SUIT_CLUB else SUIT_DIAMOND) = s"
    using assms(2) by (auto simp add: SUIT_SPADE_def SUIT_HEART_def SUIT_CLUB_def SUIT_DIAMOND_def)
  show ?thesis
    unfolding index_step_def f Let_def a marker_def by simp
qed

lemma index_ambiguities_Suc:
  "index_ambiguities (Suc n) temp = index_step temp (index_ambiguities n temp) n"
  by (simp add: index_ambiguities_def)

lemma index_ambiguities_filter:
  assumes cells: "\<forall>p < n. cell_ok (temp ! p)"
    and m: "marker m" and s: "s \<in> {0, 1, 2, 3}"
  shows "index_ambiguities n temp (m, s) = filter (\<lambda>p. temp ! p = mk_card s m) [0..<n]"
  using cells
proof (induction n)
  case 0
  then show ?case by (simp add: index_ambiguities_def)
next
  case (Suc n)
  then have IH: "index_ambiguities n temp (m, s) = filter (\<lambda>p. temp ! p = mk_card s m) [0..<n]"
    by simp
  from Suc.prems have "cell_ok (temp ! n)" by simp
  then obtain t v where t: "t \<in> {0, 1, 2, 3}" and v: "v \<in> set value_lookup_array"
    and c: "temp ! n = mk_card t v" unfolding cell_ok_def by blast
  have vr: "0 \<le> v" "v < 256" using lookup_range[OF v] by simp_all
  have mr: "0 \<le> m" "m < 256" using marker_range[OF m] by simp_all
  have eq: "(temp ! n = mk_card s m) = (t = s \<and> v = m)"
    unfolding c by (rule card_inj[OF vr mr])
  have step: "index_ambiguities (Suc n) temp =
        (if marker v then (index_ambiguities n temp)((v, t) := index_ambiguities n temp (v, t) @ [n])
         else index_ambiguities n temp)"
    unfolding index_ambiguities_Suc by (rule index_step_cell[OF c t vr])
  show ?case
  proof (cases "t = s \<and> v = m")
    case True
    then show ?thesis unfolding step using m IH eq by simp
  next
    case False
    then have "index_ambiguities (Suc n) temp (m, s) = index_ambiguities n temp (m, s)"
      unfolding step by auto
    then show ?thesis using IH eq False by simp
  qed
qed

lemma filter_upt_pair:
  assumes "filter P [0..<n] = xs" "length xs = 2"
  shows "\<exists>a c. xs = [a, c] \<and> a < c \<and> c < n \<and> P a \<and> P c"
proof -
  from assms(2) obtain a c where xs: "xs = [a, c]"
    by (cases xs; simp) (metis length_0_conv length_Suc_conv)
  have "sorted_wrt (<) (filter P [0..<n])" by (rule sorted_wrt_filter) simp
  then have "a < c" unfolding assms(1) xs by simp
  moreover have "a \<in> set (filter P [0..<n])" "c \<in> set (filter P [0..<n])"
    unfolding assms(1) xs by simp_all
  then have "P a" "P c" "c < n" by simp_all
  ultimately show ?thesis using xs by blast
qed

text \<open>What the count check establishes for a group: its index array holds two distinct
  positions, and the cell at both is the group's marker in the group's suit.\<close>

definition group_at :: "index_arrays \<Rightarrow> int list \<Rightarrow> int \<times> int \<times> int \<times> int \<times> nat \<Rightarrow> bool" where
  "group_at idx ys g =
     (case g of (m, s, lo, hi, b) \<Rightarrow>
        \<exists>a c. idx (m, s) = [a, c] \<and> a < c \<and> c < 52 \<and> ys ! a = mk_card s m \<and> ys ! c = mk_card s m)"

lemma groups_marker:
  "(m, s, lo, hi, b) \<in> set ambiguous_groups \<Longrightarrow> marker m \<and> s \<in> {0, 1, 2, 3}"
  by (auto simp add: ambiguous_groups_def marker_def SUIT_SPADE_def SUIT_HEART_def
      SUIT_CLUB_def SUIT_DIAMOND_def)

lemma counts_valid_groups:
  assumes cells: "\<forall>p < 52. cell_ok (temp ! p)"
    and cv: "counts_valid (index_ambiguities 52 temp)"
    and g: "g \<in> set ambiguous_groups"
  shows "group_at (index_ambiguities 52 temp) temp g"
proof -
  obtain m s lo hi b where gg: "g = (m, s, lo, hi, b)" by (cases g) auto
  have ms: "marker m" "s \<in> {0, 1, 2, 3}" using groups_marker g gg by blast+
  have len: "length (index_ambiguities 52 temp (m, s)) = 2"
    using cv g unfolding counts_valid_def list_all_iff gg by auto
  have "index_ambiguities 52 temp (m, s) = filter (\<lambda>p. temp ! p = mk_card s m) [0..<52]"
    by (rule index_ambiguities_filter[OF cells ms])
  from filter_upt_pair[OF this[symmetric] len] show ?thesis
    unfolding group_at_def gg by simp
qed


subsection \<open>Assigning the ambiguous cells\<close>

lemma mset_update_add:
  "p < length zs \<Longrightarrow> mset (zs[p := v]) + {#zs ! p#} = mset zs + {#v#}"
  by (simp add: mset_update)

lemma fill_group_eq:
  assumes "idx (m, s) = [a, c]"
  shows "fill_group idx i ys (m, s, lo, hi, b) =
           (if bit i b then ys[c := mk_card s lo, a := mk_card s hi]
            else ys[a := mk_card s lo, c := mk_card s hi])"
  by (simp add: fill_group_def assms mk_card_def)

lemma fill_group_length: "length (fill_group idx i ys g) = length ys"
  by (cases g) (simp add: fill_group_def Let_def)

lemma fill_group_other:
  assumes "idx (m, s) = [a, c]" "p \<noteq> a" "p \<noteq> c"
  shows "fill_group idx i ys (m, s, lo, hi, b) ! p = ys ! p"
  unfolding fill_group_eq[where idx = idx, OF assms(1)] using assms(2,3) by simp

lemma fill_group_mset:
  assumes idx: "idx (m, s) = [a, c]" and ac: "a < c" "c < 52" and len: "52 \<le> length ys"
    and cells: "ys ! a = mk_card s m" "ys ! c = mk_card s m"
  shows "mset (take 52 (fill_group idx i ys (m, s, lo, hi, b))) + {#mk_card s m, mk_card s m#}
         = mset (take 52 ys) + {#mk_card s lo, mk_card s hi#}"
proof -
  let ?zs = "take 52 ys"
  have l: "a < length ?zs" "c < length ?zs" using ac len by simp_all
  have z: "?zs ! a = mk_card s m" "?zs ! c = mk_card s m" using ac cells by simp_all
  have two: "mset (?zs[p := v, q := w]) + {#mk_card s m, mk_card s m#} = mset ?zs + {#v, w#}"
    if "p \<noteq> q" "p < length ?zs" "q < length ?zs" "?zs ! p = mk_card s m" "?zs ! q = mk_card s m"
    for p q v w
  proof -
    have 1: "mset (?zs[p := v]) + {#mk_card s m#} = mset ?zs + {#v#}"
      using mset_update_add[OF that(2), of v] that(4) by simp
    have "(?zs[p := v]) ! q = mk_card s m" using that by simp
    then have 2: "mset (?zs[p := v, q := w]) + {#mk_card s m#} = mset (?zs[p := v]) + {#w#}"
      using mset_update_add[of q "?zs[p := v]" w] that(3) by simp
    have "mset (?zs[p := v, q := w]) + {#mk_card s m, mk_card s m#}
          = (mset (?zs[p := v, q := w]) + {#mk_card s m#}) + {#mk_card s m#}" by simp
    also have "\<dots> = (mset (?zs[p := v]) + {#mk_card s m#}) + {#w#}" unfolding 2 by simp
    also have "\<dots> = mset ?zs + {#v, w#}" unfolding 1 by simp
    finally show ?thesis .
  qed
  have t: "take 52 (ys[p := v, q := w]) = ?zs[p := v, q := w]" for p q v w
    by (simp add: take_update_swap)
  show ?thesis
  proof (cases "bit i b")
    case True
    then show ?thesis unfolding fill_group_eq[where idx = idx, OF idx] using two[of c a] l z ac t by simp
  next
    case False
    then show ?thesis unfolding fill_group_eq[where idx = idx, OF idx] using two[of a c] l z ac t by simp
  qed
qed

definition markers_of :: "(int \<times> int \<times> int \<times> int \<times> nat) list \<Rightarrow> int list" where
  "markers_of gs = concat (map (\<lambda>(m, s, lo, hi, b). [mk_card s m, mk_card s m]) gs)"

definition cards_of :: "(int \<times> int \<times> int \<times> int \<times> nat) list \<Rightarrow> int list" where
  "cards_of gs = concat (map (\<lambda>(m, s, lo, hi, b). [mk_card s lo, mk_card s hi]) gs)"

definition cell_of :: "int \<times> int \<times> int \<times> int \<times> nat \<Rightarrow> int" where
  "cell_of g = (case g of (m, s, lo, hi, b) \<Rightarrow> mk_card s m)"

lemma fill_groups_length: "length (foldl (fill_group idx i) ys gs) = length ys"
  by (induction gs arbitrary: ys) (simp_all add: fill_group_length)

lemma fill_groups_mset:
  assumes "distinct (map cell_of gs)" "\<forall>g \<in> set gs. group_at idx ys g" "52 \<le> length ys"
  shows "mset (take 52 (foldl (fill_group idx i) ys gs)) + mset (markers_of gs)
         = mset (take 52 ys) + mset (cards_of gs)"
  using assms
proof (induction gs arbitrary: ys)
  case Nil
  then show ?case by (simp add: markers_of_def cards_of_def)
next
  case (Cons g gs)
  obtain m s lo hi b where gg: "g = (m, s, lo, hi, b)" by (cases g) auto
  from Cons.prems(2) have "group_at idx ys g" by simp
  then obtain a c where idx: "idx (m, s) = [a, c]" and ac: "a < c" "c < 52"
    and cells: "ys ! a = mk_card s m" "ys ! c = mk_card s m"
    unfolding group_at_def gg by auto
  let ?ys = "fill_group idx i ys g"
  have step: "mset (take 52 ?ys) + {#mk_card s m, mk_card s m#}
              = mset (take 52 ys) + {#mk_card s lo, mk_card s hi#}"
    unfolding gg by (rule fill_group_mset[where idx = idx, OF idx ac Cons.prems(3) cells])
  have rest: "\<forall>h \<in> set gs. group_at idx ?ys h"
  proof
    fix h assume h: "h \<in> set gs"
    obtain m' s' lo' hi' b' where hh: "h = (m', s', lo', hi', b')" by (cases h) auto
    from Cons.prems(2) h have "group_at idx ys h" by simp
    then obtain a' c' where idx': "idx (m', s') = [a', c']" and ac': "a' < c'" "c' < 52"
      and cells': "ys ! a' = mk_card s' m'" "ys ! c' = mk_card s' m'"
      unfolding group_at_def hh by auto
    from Cons.prems(1) h have "cell_of h \<noteq> cell_of g" by (metis distinct.simps(2) image_eqI list.simps(9) set_map)
    then have ne: "mk_card s' m' \<noteq> mk_card s m" unfolding cell_of_def hh gg by simp
    have "a' \<noteq> a" "a' \<noteq> c" "c' \<noteq> a" "c' \<noteq> c" using ne cells cells' by auto
    then have "?ys ! a' = ys ! a'" "?ys ! c' = ys ! c'"
      unfolding gg using fill_group_other[where idx = idx, OF idx] by simp_all
    then show "group_at idx ?ys h"
      unfolding group_at_def hh using idx' ac' cells' by auto
  qed
  have d: "distinct (map cell_of gs)" using Cons.prems(1) by simp
  have l: "52 \<le> length ?ys" using Cons.prems(3) by (simp add: fill_group_length)
  have IH: "mset (take 52 (foldl (fill_group idx i) ?ys gs)) + mset (markers_of gs)
            = mset (take 52 ?ys) + mset (cards_of gs)"
    by (rule Cons.IH[OF d rest l])
  have mk: "mset (markers_of (g # gs)) = {#mk_card s m, mk_card s m#} + mset (markers_of gs)"
    by (simp add: markers_of_def gg)
  have cd: "mset (cards_of (g # gs)) = {#mk_card s lo, mk_card s hi#} + mset (cards_of gs)"
    by (simp add: cards_of_def gg)
  have "mset (take 52 (foldl (fill_group idx i) ys (g # gs))) + mset (markers_of (g # gs))
        = (mset (take 52 (foldl (fill_group idx i) ?ys gs)) + mset (markers_of gs))
          + {#mk_card s m, mk_card s m#}"
    unfolding mk by simp
  also have "\<dots> = (mset (take 52 ?ys) + {#mk_card s m, mk_card s m#}) + mset (cards_of gs)"
    unfolding IH by simp
  also have "\<dots> = mset (take 52 ys) + mset (cards_of (g # gs))"
    unfolding step cd by simp
  finally show ?case .
qed

text \<open>The cells outside the index arrays are left alone, and the cells inside them are
  overwritten whatever they held: realization \<open>i\<close> does not depend on the realization
  that was in the array before.\<close>

lemma fill_groups_other:
  assumes "\<forall>g \<in> set gs. group_at idx zs g"
    and "\<forall>g \<in> set gs. \<forall>m s lo hi b. g = (m, s, lo, hi, b) \<longrightarrow> p \<notin> set (idx (m, s))"
  shows "foldl (fill_group idx i) ys gs ! p = ys ! p"
  using assms
proof (induction gs arbitrary: ys)
  case Nil
  then show ?case by simp
next
  case (Cons g gs)
  obtain m s lo hi b where gg: "g = (m, s, lo, hi, b)" by (cases g) auto
  from Cons.prems(1) obtain a c where idx: "idx (m, s) = [a, c]"
    unfolding gg group_at_def by auto
  from Cons.prems(2) have "p \<notin> set (idx (m, s))" unfolding gg by simp
  then have "p \<noteq> a" "p \<noteq> c" unfolding idx by simp_all
  then have "fill_group idx i ys g ! p = ys ! p"
    unfolding gg using fill_group_other[where idx = idx, OF idx] by simp
  moreover have "foldl (fill_group idx i) (fill_group idx i ys g) gs ! p = fill_group idx i ys g ! p"
    using Cons.IH[of "fill_group idx i ys g"] Cons.prems by simp
  ultimately show ?case by simp
qed

lemma fill_groups_overwrite:
  assumes "\<forall>g \<in> set gs. group_at idx zs g" "length ys = length ys'"
    and "\<forall>p < length ys.
           (\<forall>g \<in> set gs. \<forall>m s lo hi b. g = (m, s, lo, hi, b) \<longrightarrow> p \<notin> set (idx (m, s)))
             \<longrightarrow> ys ! p = ys' ! p"
  shows "foldl (fill_group idx i) ys gs = foldl (fill_group idx i) ys' gs"
  using assms
proof (induction gs arbitrary: ys ys')
  case Nil
  then show ?case by (auto intro: nth_equalityI)
next
  case (Cons g gs)
  obtain m s lo hi b where gg: "g = (m, s, lo, hi, b)" by (cases g) auto
  from Cons.prems(1) obtain a c where idx: "idx (m, s) = [a, c]" and ac: "a < c"
    unfolding gg group_at_def by auto
  let ?ys = "fill_group idx i ys g" and ?ys' = "fill_group idx i ys' g"
  have l: "length ?ys = length ?ys'" using Cons.prems(2) by (simp add: fill_group_length)
  have agree: "?ys ! p = ?ys' ! p"
    if "\<forall>h \<in> set gs. \<forall>m s lo hi b. h = (m, s, lo, hi, b) \<longrightarrow> p \<notin> set (idx (m, s))"
      and p: "p < length ys" for p
  proof (cases "p = a \<or> p = c")
    case True
    then show ?thesis
      unfolding gg fill_group_eq[where idx = idx, OF idx] using Cons.prems(2) p ac
      by (auto simp add: nth_list_update)
  next
    case False
    then have "p \<notin> set (idx (m, s))" unfolding idx by simp
    with that have "ys ! p = ys' ! p" using Cons.prems(3) unfolding gg by auto
    moreover have "?ys ! p = ys ! p" "?ys' ! p = ys' ! p"
      unfolding gg using fill_group_other[where idx = idx, OF idx] False by simp_all
    ultimately show ?thesis by simp
  qed
  have "foldl (fill_group idx i) ?ys gs = foldl (fill_group idx i) ?ys' gs"
    using Cons.IH[of ?ys ?ys'] Cons.prems(1) l agree by (simp add: fill_group_length)
  then show ?case by simp
qed


text \<open>For evaluation: the index arrays as a table computed from the cells.\<close>

definition scan_table :: "int list \<Rightarrow> index_arrays" where
  "scan_table temp = (\<lambda>(m, s). filter (\<lambda>p. temp ! p = mk_card s m) [0..<52])"

lemma fill_groups_cong:
  assumes "\<forall>g \<in> set gs. \<forall>m s lo hi b. g = (m, s, lo, hi, b) \<longrightarrow> idx (m, s) = idx' (m, s)"
  shows "foldl (fill_group idx i) ys gs = foldl (fill_group idx' i) ys gs"
  using assms
proof (induction gs arbitrary: ys)
  case Nil
  then show ?case by simp
next
  case (Cons g gs)
  obtain m s lo hi b where gg: "g = (m, s, lo, hi, b)" by (cases g) auto
  have "idx (m, s) = idx' (m, s)" using Cons.prems gg by simp
  then have "fill_group idx i ys g = fill_group idx' i ys g"
    unfolding gg fill_group_def by simp
  then show ?case using Cons by simp
qed

lemma scan_table_groups:
  assumes "\<forall>p < 52. cell_ok (temp ! p)" "(m, s, lo, hi, b) \<in> set ambiguous_groups"
  shows "index_ambiguities 52 temp (m, s) = scan_table temp (m, s)"
  unfolding scan_table_def using index_ambiguities_filter[OF assms(1)] groups_marker[OF assms(2)]
  by simp

lemma fill_ambiguous_scan:
  assumes "\<forall>p < 52. cell_ok (temp ! p)"
  shows "fill_ambiguous (index_ambiguities 52 temp) i ys = fill_ambiguous (scan_table temp) i ys"
  unfolding fill_ambiguous_def
  by (rule fill_groups_cong) (use scan_table_groups[OF assms] in blast)

lemma counts_valid_scan:
  assumes "\<forall>p < 52. cell_ok (temp ! p)"
  shows "counts_valid (index_ambiguities 52 temp) = counts_valid (scan_table temp)"
  unfolding counts_valid_def list_all_iff using scan_table_groups[OF assms] by auto

subsection \<open>The realizations of a bundle\<close>

text \<open>The partial deck that \<^verbatim>\<open>find_best_deck_order\<close> builds in its first step, and
  the deck that assigning the ambiguous cells with the bits of \<open>i\<close> makes of it.\<close>

definition partial_deck :: "deck_info \<Rightarrow> seq_info \<Rightarrow> int list" where
  "partial_deck di si =
     get_deck_possibilities (memset_zero (n_bits_max si) (temp_deck_array di)) si"

definition realized_deck :: "deck_info \<Rightarrow> seq_info \<Rightarrow> nat \<Rightarrow> int list" where
  "realized_deck di si i =
     fill_ambiguous (index_ambiguities (n_bits_max si) (partial_deck di si)) i (partial_deck di si)"

definition standard_deck :: "int list" where
  "standard_deck =
     concat (map (\<lambda>s. map (mk_card s) [1, 2, 3, 4, 5, 6, 7, 8, 9, 10, 11, 12, 13]) [0, 1, 2, 3])"

definition resolved_cards :: "int list" where
  "resolved_cards = concat (map (\<lambda>s. map (mk_card s) [2, 5, 7, 9, 12]) [0, 1, 2, 3])"

definition legal_partial_deck :: "int list" where
  "legal_partial_deck = resolved_cards @ markers_of ambiguous_groups"

lemmas deck_consts = mk_card_def SUIT_SPADE_def SUIT_HEART_def SUIT_CLUB_def SUIT_DIAMOND_def
  VALUE_ACE_OR_THREE_def VALUE_FOUR_OR_SIX_def VALUE_EIGHT_OR_TEN_def VALUE_JACK_OR_KING_def

lemma standard_deck_split:
  "mset standard_deck = mset resolved_cards + mset (cards_of ambiguous_groups)"
  by (simp add: standard_deck_def resolved_cards_def cards_of_def ambiguous_groups_def deck_consts)

lemma groups_distinct: "distinct (map cell_of ambiguous_groups)"
  by (simp add: cell_of_def ambiguous_groups_def deck_consts)

lemma memset_zero_length: "length (memset_zero 52 xs) = length xs"
  by (simp add: memset_zero_def Let_def)

lemma partial_deck_length:
  "n_bits_max si = 52 \<Longrightarrow> length (partial_deck di si) = length (temp_deck_array di)"
  by (simp add: partial_deck_def get_deck_possibilities_def possibilities_length memset_zero_length)

lemma partial_deck_cells:
  assumes "n_bits_max si = 52" "52 \<le> length (temp_deck_array di)" "p < 52"
  shows "cell_ok (partial_deck di si ! p)"
  unfolding cell_ok_def partial_deck_def get_deck_possibilities_def assms(1)
  by (rule possibilities_cells[OF assms(3)]) (simp add: memset_zero_length assms(2))

lemma realized_deck_scan:
  assumes "n_bits_max si = 52" "52 \<le> length (temp_deck_array di)"
  shows "realized_deck di si i = fill_ambiguous (scan_table (partial_deck di si)) i (partial_deck di si)"
    and "counts_valid (index_ambiguities 52 (partial_deck di si))
         = counts_valid (scan_table (partial_deck di si))"
proof -
  have cells: "\<forall>p < 52. cell_ok (partial_deck di si ! p)"
    using partial_deck_cells[OF assms] by simp
  show "realized_deck di si i = fill_ambiguous (scan_table (partial_deck di si)) i (partial_deck di si)"
    unfolding realized_deck_def assms(1) by (rule fill_ambiguous_scan[OF cells])
  show "counts_valid (index_ambiguities 52 (partial_deck di si))
         = counts_valid (scan_table (partial_deck di si))"
    by (rule counts_valid_scan[OF cells])
qed

lemma value_in_array: "deck_is_value_in_array v xs = (v \<in> set xs)"
  by (induction xs) auto

lemma count_positions:
  "n \<le> length ys \<Longrightarrow> length (filter (\<lambda>p. ys ! p = c) [0..<n]) = count (mset (take n ys)) c"
  by (induction n) (simp_all add: take_Suc_conv_app_nth)

lemma legal_marker_count:
  "(m, s, lo, hi, b) \<in> set ambiguous_groups \<Longrightarrow> count (mset legal_partial_deck) (mk_card s m) = 2"
  by (auto simp add: legal_partial_deck_def resolved_cards_def markers_of_def ambiguous_groups_def
      deck_consts)

lemma legal_counts_valid:
  assumes n: "n_bits_max si = 52" and len: "52 \<le> length (temp_deck_array di)"
    and legal: "mset (take 52 (partial_deck di si)) = mset legal_partial_deck"
  shows "counts_valid (index_ambiguities 52 (partial_deck di si))"
proof -
  let ?t = "partial_deck di si"
  have cells: "\<forall>p < 52. cell_ok (?t ! p)" using partial_deck_cells[OF n len] by simp
  have l: "52 \<le> length ?t" using len by (simp add: partial_deck_length[OF n])
  have "length (index_ambiguities 52 ?t (m, s)) = 2"
    if g: "(m, s, lo, hi, b) \<in> set ambiguous_groups" for m s lo hi b
  proof -
    have ms: "marker m" "s \<in> {0, 1, 2, 3}" using groups_marker[OF g] by blast+
    have "index_ambiguities 52 ?t (m, s) = filter (\<lambda>p. ?t ! p = mk_card s m) [0..<52]"
      by (rule index_ambiguities_filter[OF cells ms])
    then show ?thesis
      using count_positions[OF l, of "mk_card s m"] legal legal_marker_count[OF g] by simp
  qed
  then show ?thesis unfolding counts_valid_def list_all_iff by auto
qed

lemma realized_deck_mset:
  assumes n: "n_bits_max si = 52" and len: "52 \<le> length (temp_deck_array di)"
    and cv: "counts_valid (index_ambiguities 52 (partial_deck di si))"
  shows "mset (take 52 (realized_deck di si i)) + mset (markers_of ambiguous_groups)
         = mset (take 52 (partial_deck di si)) + mset (cards_of ambiguous_groups)"
proof -
  let ?t = "partial_deck di si"
  have cells: "\<forall>p < 52. cell_ok (?t ! p)" using partial_deck_cells[OF n len] by simp
  have l: "52 \<le> length ?t" using len by (simp add: partial_deck_length[OF n])
  have g: "\<forall>g \<in> set ambiguous_groups. group_at (index_ambiguities 52 ?t) ?t g"
    using counts_valid_groups[OF cells cv] by blast
  show ?thesis
    unfolding realized_deck_def fill_ambiguous_def n
    by (rule fill_groups_mset[OF groups_distinct g l])
qed

text \<open>A bundle whose partial deck lists the legal cells in order of suit and value; its
  sequences are not bracelet sequences.\<close>

definition bundle_in_value_order :: seq_info where
  "bundle_in_value_order =
     \<lparr> red_seq = 0x3ff33333333, cd_seq = 0x7c1f0f0f0f0f, hc_seq = 0x7fe03c3c3c3c,
       odd_seq = 0x739ceff0000ff, c7k_seq = 0x39ce70000ffff, c8k_seq = 0x18c630000ffff,
       c4t_seq = 0x739ce00ffff00, subsequence_mask = 63, n_bits_max = 52 \<rparr>"

text \<open>A bundle of seven bracelet sequences in which the codes of the value axes never
  give a seven.\<close>

definition bundle_without_sevens :: seq_info where
  "bundle_without_sevens =
     \<lparr> red_seq = 0x2a4f477c166d7, cd_seq = 0x64afc0b10f46a, hc_seq = 0x4ee087cd192bd,
       odd_seq = 0xc520613a3ee6b, c7k_seq = 0x51ba61e4b3881, c8k_seq = 0x51ba61e4b3881,
       c4t_seq = 0x30deb89502ced, subsequence_mask = 63, n_bits_max = 52 \<rparr>"

text \<open>
  Claim C2 (amended). The count check sees the sixteen ambiguous markers only; the twenty
  cells that hold 2, 5, 7, 9 and Q are not looked at. When the partial deck holds each of
  these five values once in each suit and each marker twice in each suit, the two checks
  of the realizer accept the bundle and each of its realizations is, as a multiset, the
  standard deck of 52 cards.
\<close>

theorem legal_partial_deck_realizations:
  assumes "n_bits_max si = 52" and "52 \<le> length (temp_deck_array di)"
    and "mset (take 52 (partial_deck di si)) = mset legal_partial_deck"
  shows "\<not> deck_is_value_in_array 0 (take 52 (partial_deck di si))
         \<and> counts_valid (index_ambiguities 52 (partial_deck di si))
         \<and> mset (take 52 (realized_deck di si i)) = mset standard_deck"
proof -
  have "0 \<notin> set legal_partial_deck"
    by (simp add: legal_partial_deck_def resolved_cards_def markers_of_def ambiguous_groups_def
        deck_consts)
  then have "0 \<notin># mset (take 52 (partial_deck di si))" unfolding assms(3) by simp
  then have a: "\<not> deck_is_value_in_array 0 (take 52 (partial_deck di si))"
    unfolding value_in_array by simp
  have cv: "counts_valid (index_ambiguities 52 (partial_deck di si))"
    by (rule legal_counts_valid[OF assms])
  have "mset (take 52 (realized_deck di si i)) + mset (markers_of ambiguous_groups)
        = (mset resolved_cards + mset (cards_of ambiguous_groups)) + mset (markers_of ambiguous_groups)"
    unfolding realized_deck_mset[OF assms(1,2) cv] assms(3) legal_partial_deck_def by simp
  then have "mset (take 52 (realized_deck di si i)) = mset standard_deck"
    unfolding standard_deck_split by simp
  with a cv show ?thesis by simp
qed

theorem legal_partial_deck_realizations_witness:
  "mset (take 52 (partial_deck (initial_deck_info False) bundle_in_value_order))
     = mset legal_partial_deck
   \<and> \<not> deck_is_value_in_array 0 (take 52 (partial_deck (initial_deck_info False) bundle_in_value_order))
   \<and> counts_valid (index_ambiguities 52 (partial_deck (initial_deck_info False) bundle_in_value_order))
   \<and> mset (take 52 (realized_deck (initial_deck_info False) bundle_in_value_order 5))
     = mset standard_deck"
proof -
  have "take 52 (partial_deck (initial_deck_info False) bundle_in_value_order) = legal_partial_deck"
    by code_simp
  then show ?thesis
    using legal_partial_deck_realizations
            [of bundle_in_value_order "initial_deck_info False" 5]
    by (simp add: bundle_in_value_order_def initial_deck_info_def)
qed

definition cells_without_sevens :: "int list" where
  "cells_without_sevens =
     [103, 369, 814, 81, 514, 359, 514, 113, 337, 558, 369, 81, 849, 814, 849, 770, 302, 881,
      9, 46, 46, 514, 514, 625, 337, 524, 881, 773, 615, 593, 103, 302, 12, 2, 113, 625, 359,
      871, 777, 268, 9, 773, 615, 2, 593, 773, 261, 514, 261, 558, 871, 521,
      0, 0, 0, 0, 0, 0, 0, 0, 0, 0, 0, 0]"

lemma without_sevens_partial:
  "partial_deck (initial_deck_info False) bundle_without_sevens = cells_without_sevens"
  unfolding cells_without_sevens_def by code_simp

lemma without_sevens_table:
  "map (\<lambda>(m, s, lo, hi, b). scan_table cells_without_sevens (m, s)) ambiguous_groups =
     [[0, 30], [28, 42], [5, 36], [37, 50], [19, 20], [9, 49], [16, 31], [2, 13],
      [3, 11], [29, 44], [8, 24], [12, 14], [7, 34], [23, 35], [1, 10], [17, 26]]"
  unfolding cells_without_sevens_def by code_simp

lemma without_sevens_entries:
  "scan_table cells_without_sevens (103, 0) = [0, 30]"
  "scan_table cells_without_sevens (103, 2) = [28, 42]"
  "scan_table cells_without_sevens (103, 1) = [5, 36]"
  "scan_table cells_without_sevens (103, 3) = [37, 50]"
  "scan_table cells_without_sevens (46, 0) = [19, 20]"
  "scan_table cells_without_sevens (46, 2) = [9, 49]"
  "scan_table cells_without_sevens (46, 1) = [16, 31]"
  "scan_table cells_without_sevens (46, 3) = [2, 13]"
  "scan_table cells_without_sevens (81, 0) = [3, 11]"
  "scan_table cells_without_sevens (81, 2) = [29, 44]"
  "scan_table cells_without_sevens (81, 1) = [8, 24]"
  "scan_table cells_without_sevens (81, 3) = [12, 14]"
  "scan_table cells_without_sevens (113, 0) = [7, 34]"
  "scan_table cells_without_sevens (113, 2) = [23, 35]"
  "scan_table cells_without_sevens (113, 1) = [1, 10]"
  "scan_table cells_without_sevens (113, 3) = [17, 26]"
  using without_sevens_table by (simp_all add: ambiguous_groups_def deck_consts)

lemma without_sevens_shape:
  "n_bits_max bundle_without_sevens = 52"
  "52 \<le> length (temp_deck_array (initial_deck_info False))"
  by (simp_all add: bundle_without_sevens_def initial_deck_info_def)

lemma without_sevens_realized:
  "realized_deck (initial_deck_info False) bundle_without_sevens 0 =
     [1, 267, 772, 8, 514, 257, 514, 11, 264, 516, 269, 10, 776, 774, 778, 770, 260, 779, 9,
      4, 6, 514, 514, 523, 266, 524, 781, 773, 513, 520, 3, 262, 12, 2, 13, 525, 259, 769, 777,
      268, 9, 773, 515, 2, 522, 773, 261, 514, 261, 518, 771, 521,
      0, 0, 0, 0, 0, 0, 0, 0, 0, 0, 0, 0]"
  unfolding realized_deck_scan(1)[OF without_sevens_shape] without_sevens_partial
    fill_ambiguous_def ambiguous_groups_def deck_consts
  apply (simp add: fill_group_def without_sevens_entries)
  apply (simp add: cells_without_sevens_def)
  done

lemma without_sevens_counts:
  "counts_valid (index_ambiguities 52 (partial_deck (initial_deck_info False) bundle_without_sevens))"
proof -
  have "counts_valid (scan_table cells_without_sevens)"
    unfolding counts_valid_def ambiguous_groups_def deck_consts
    by (simp add: without_sevens_entries)
  then show ?thesis
    using realized_deck_scan(2)[OF without_sevens_shape] by (simp add: without_sevens_partial)
qed

lemma without_sevens_valid:
  "bit_has_unique_subsequences (red_seq bundle_without_sevens)
   \<and> bit_has_unique_subsequences (cd_seq bundle_without_sevens)
   \<and> bit_has_unique_subsequences (hc_seq bundle_without_sevens)
   \<and> bit_has_unique_subsequences (odd_seq bundle_without_sevens)
   \<and> bit_has_unique_subsequences (c7k_seq bundle_without_sevens)
   \<and> bit_has_unique_subsequences (c8k_seq bundle_without_sevens)
   \<and> bit_has_unique_subsequences (c4t_seq bundle_without_sevens)"
  by (simp add: bundle_without_sevens_def bit_has_unique_subsequences_def unique_loop.simps)

text \<open>
  Claim C2 (as stated, refuted). All seven sequences of this bundle are bracelet-valid
  (the HC sequence is the one derived from RED and CD), no value code maps to 0, and each
  marker occurs twice in each suit, so both checks of the realizer pass. Its realization
  0 holds the two of hearts five times and no seven of spades: it is not the standard deck.
\<close>

theorem accepted_bundle_without_sevens:
  "bit_has_unique_subsequences (red_seq bundle_without_sevens)
   \<and> bit_has_unique_subsequences (cd_seq bundle_without_sevens)
   \<and> bit_has_unique_subsequences (hc_seq bundle_without_sevens)
   \<and> bit_has_unique_subsequences (odd_seq bundle_without_sevens)
   \<and> bit_has_unique_subsequences (c7k_seq bundle_without_sevens)
   \<and> bit_has_unique_subsequences (c8k_seq bundle_without_sevens)
   \<and> bit_has_unique_subsequences (c4t_seq bundle_without_sevens)
   \<and> list_all (\<lambda>c. c AND 0xFF \<noteq> 0)
        (take 52 (partial_deck (initial_deck_info False) bundle_without_sevens))
   \<and> \<not> deck_is_value_in_array 0
          (take 52 (partial_deck (initial_deck_info False) bundle_without_sevens))
   \<and> counts_valid (index_ambiguities 52
                      (partial_deck (initial_deck_info False) bundle_without_sevens))
   \<and> count (mset (take 52 (realized_deck (initial_deck_info False) bundle_without_sevens 0)))
        (mk_card SUIT_HEART 2) = 5
   \<and> mk_card SUIT_SPADE 7 \<notin> set (take 52 (realized_deck (initial_deck_info False) bundle_without_sevens 0))
   \<and> mset (take 52 (realized_deck (initial_deck_info False) bundle_without_sevens 0))
        \<noteq> mset standard_deck"
proof -
  have a: "list_all (\<lambda>c. c AND 0xFF \<noteq> 0)
             (take 52 (partial_deck (initial_deck_info False) bundle_without_sevens))"
    unfolding without_sevens_partial cells_without_sevens_def by simp
  have b: "\<not> deck_is_value_in_array 0
             (take 52 (partial_deck (initial_deck_info False) bundle_without_sevens))"
    unfolding without_sevens_partial cells_without_sevens_def by simp
  note c = without_sevens_counts
  have d: "count (mset (take 52 (realized_deck (initial_deck_info False) bundle_without_sevens 0)))
             (mk_card SUIT_HEART 2) = 5"
    unfolding without_sevens_realized by (simp add: deck_consts)
  have e: "mk_card SUIT_SPADE 7 \<notin> set (take 52 (realized_deck (initial_deck_info False) bundle_without_sevens 0))"
    unfolding without_sevens_realized by (simp add: deck_consts)
  have "mk_card SUIT_SPADE 7 \<in> set standard_deck"
    by (simp add: standard_deck_def deck_consts)
  with e have f: "mset (take 52 (realized_deck (initial_deck_info False) bundle_without_sevens 0))
        \<noteq> mset standard_deck"
    by (metis set_mset_mset)
  from without_sevens_valid a b c d e f show ?thesis by simp
qed

end
